theory Spec2Isabelle
  imports Complex_Main "HOL-Library.Sublist" "HOL-Library.Char_ord" "HOL-Library.List_Lexorder"
begin

section \<open>Text and the regular expressions of Python's \<open>re\<close>\<close>

text \<open>
  Source text is a \<^typ>\<open>string\<close>: a list of characters, each a code point below 256.
  The character classes are those of \<open>re\<close> on \<open>str\<close> patterns, read on that range:
  \<open>\w\<close> is an alphanumeric character or the underscore, \<open>\s\<close> is a character for
  which \<open>str.isspace\<close> holds.
\<close>

definition NL :: char where
  "NL = CHR 0x0A"

definition DQ :: char where
  "DQ = CHR 0x22"

definition SQ :: char where
  "SQ = CHR 0x27"

definition is_word_char :: "char \<Rightarrow> bool" where
  "is_word_char c =
     (let n = (of_char c :: nat) in
        (48 \<le> n \<and> n \<le> 57) \<or> (65 \<le> n \<and> n \<le> 90) \<or> n = 95 \<or> (97 \<le> n \<and> n \<le> 122)
        \<or> n = 170 \<or> n = 178 \<or> n = 179 \<or> n = 181 \<or> n = 185 \<or> n = 186
        \<or> n = 188 \<or> n = 189 \<or> n = 190
        \<or> (192 \<le> n \<and> n \<le> 214) \<or> (216 \<le> n \<and> n \<le> 246) \<or> 248 \<le> n)"

definition is_space :: "char \<Rightarrow> bool" where
  "is_space c =
     (let n = (of_char c :: nat) in
        (9 \<le> n \<and> n \<le> 13) \<or> (28 \<le> n \<and> n \<le> 32) \<or> n = 133 \<or> n = 160)"

text \<open>The character sets that the patterns of the repository use.\<close>

datatype cls =
    Space              \<comment> \<open>\<open>\s\<close>\<close>
  | NonSpace           \<comment> \<open>\<open>\S\<close>\<close>
  | Word               \<comment> \<open>\<open>\w\<close>\<close>
  | Dot                \<comment> \<open>\<open>.\<close> without DOTALL: anything but a newline\<close>
  | NoneOf string      \<comment> \<open>\<open>[^...]\<close>\<close>
  | Upper              \<comment> \<open>\<open>[A-Z]\<close>\<close>

fun in_cls :: "cls \<Rightarrow> char \<Rightarrow> bool" where
  "in_cls Space c = is_space c"
| "in_cls NonSpace c = (\<not> is_space c)"
| "in_cls Word c = is_word_char c"
| "in_cls Dot c = (c \<noteq> NL)"
| "in_cls (NoneOf cs) c = (c \<notin> set cs)"
| "in_cls Upper c = (65 \<le> (of_char c :: nat) \<and> (of_char c :: nat) \<le> 90)"

text \<open>
  The patterns, as far as the repository writes them: literal text, a character of a
  set, a greedy repetition of a set, sequence, alternative, a greedy optional part, a
  negative lookahead, the anchors of MULTILINE mode, the word boundary and the one
  capturing group.
\<close>

datatype regex =
    Lit string
  | One cls                \<comment> \<open>one character of a set\<close>
  | Star cls               \<comment> \<open>\<open>c*\<close>\<close>
  | Plus cls               \<comment> \<open>\<open>c+\<close>\<close>
  | Seq regex regex
  | Alt regex regex
  | Opt regex              \<comment> \<open>\<open>(?:r)?\<close>\<close>
  | NegLook regex          \<comment> \<open>\<open>(?!r)\<close>\<close>
  | Bol                    \<comment> \<open>\<open>^\<close> with MULTILINE\<close>
  | Eol                    \<comment> \<open>\<open>$\<close> with MULTILINE\<close>
  | WordB                  \<comment> \<open>\<open>\b\<close>\<close>
  | Group regex            \<comment> \<open>\<open>(r)\<close>, group 1\<close>

text \<open>
  A position of the matcher: the character before it (\<open>None\<close> at the start of the
  text), the text from it on, and what group 1 holds.
\<close>

type_synonym mpos = "char option \<times> string \<times> string option"

text \<open>
  A greedy repetition offers the longest run first and gives characters back one at a
  time, as the backtracking matcher does.
\<close>

fun star :: "cls \<Rightarrow> mpos \<Rightarrow> mpos list" where
  "star c (p, [], g) = [(p, [], g)]"
| "star c (p, x # xs, g) =
     (if in_cls c x then star c (Some x, xs, g) @ [(p, x # xs, g)] else [(p, x # xs, g)])"

definition word_before :: "char option \<Rightarrow> bool" where
  "word_before p = (case p of None \<Rightarrow> False | Some c \<Rightarrow> is_word_char c)"

definition word_after :: "string \<Rightarrow> bool" where
  "word_after t = (case t of [] \<Rightarrow> False | c # _ \<Rightarrow> is_word_char c)"

text \<open>
  \<open>rx r pos\<close> lists the positions at which a match of \<open>r\<close> begun at \<open>pos\<close> can end, in
  the order in which backtracking tries them: the head is the match that \<open>re\<close> reports.
\<close>

fun rx :: "regex \<Rightarrow> mpos \<Rightarrow> mpos list" where
  "rx (Lit s) (p, t, g) =
     (if prefix s t then [(if s = [] then p else Some (last s), drop (length s) t, g)] else [])"
| "rx (One c) (p, t, g) =
     (case t of [] \<Rightarrow> [] | x # xs \<Rightarrow> if in_cls c x then [(Some x, xs, g)] else [])"
| "rx (Star c) pos = star c pos"
| "rx (Plus c) (p, t, g) =
     (case t of [] \<Rightarrow> [] | x # xs \<Rightarrow> if in_cls c x then star c (Some x, xs, g) else [])"
| "rx (Seq a b) pos = concat (map (rx b) (rx a pos))"
| "rx (Alt a b) pos = rx a pos @ rx b pos"
| "rx (Opt a) pos = rx a pos @ [pos]"
| "rx (NegLook a) pos = (if rx a pos = [] then [pos] else [])"
| "rx Bol (p, t, g) = (if p = None \<or> p = Some NL then [(p, t, g)] else [])"
| "rx Eol (p, t, g) = (if t = [] \<or> hd t = NL then [(p, t, g)] else [])"
| "rx WordB (p, t, g) = (if word_before p \<noteq> word_after t then [(p, t, g)] else [])"
| "rx (Group a) (p, t, g) =
     map (\<lambda>(p', t', _). (p', t', Some (take (length t - length t') t))) (rx a (p, t, g))"

text \<open>\<open>pattern.search(text)\<close> as a truth value: is there a match from some position on?\<close>

fun search_from :: "regex \<Rightarrow> char option \<Rightarrow> string \<Rightarrow> bool" where
  "search_from r p [] = (rx r (p, [], None) \<noteq> [])"
| "search_from r p (x # xs) = (rx r (p, x # xs, None) \<noteq> [] \<or> search_from r (Some x) xs)"

definition re_search :: "regex \<Rightarrow> string \<Rightarrow> bool" where
  "re_search r text = search_from r None text"

text \<open>
  \<open>pattern.sub(repl, text)\<close> for a replacement without escapes: the leftmost match is
  replaced and the scan goes on behind it. An empty match is replaced too, and the scan
  moves on by one character.
\<close>

function sub_from :: "regex \<Rightarrow> string \<Rightarrow> char option \<Rightarrow> string \<Rightarrow> string" where
  "sub_from r repl p t =
     (case rx r (p, t, None) of
        [] \<Rightarrow> (case t of [] \<Rightarrow> [] | x # xs \<Rightarrow> x # sub_from r repl (Some x) xs)
      | (p', t', g) # _ \<Rightarrow>
          if length t' < length t then repl @ sub_from r repl p' t'
          else repl @ (case t of [] \<Rightarrow> [] | x # xs \<Rightarrow> x # sub_from r repl (Some x) xs))"
  by pat_completeness auto
termination
  by (relation "measure (\<lambda>(r, repl, p, t). length t)") auto

declare sub_from.simps [simp del]

definition re_sub :: "regex \<Rightarrow> string \<Rightarrow> string \<Rightarrow> string" where
  "re_sub r repl text = sub_from r repl None text"

text \<open>
  \<open>pattern.finditer(text)\<close>: start, end and group 1 of the matches, from left to right,
  none overlapping another.
\<close>

function finditer_from :: "regex \<Rightarrow> char option \<Rightarrow> string \<Rightarrow> nat \<Rightarrow> (nat \<times> nat \<times> string option) list" where
  "finditer_from r p t pos =
     (case rx r (p, t, None) of
        [] \<Rightarrow> (case t of [] \<Rightarrow> [] | x # xs \<Rightarrow> finditer_from r (Some x) xs (Suc pos))
      | (p', t', g) # _ \<Rightarrow>
          if length t' < length t
          then (pos, pos + (length t - length t'), g)
                 # finditer_from r p' t' (pos + (length t - length t'))
          else (pos, pos, g)
                 # (case t of [] \<Rightarrow> [] | x # xs \<Rightarrow> finditer_from r (Some x) xs (Suc pos)))"
  by pat_completeness auto
termination
  by (relation "measure (\<lambda>(r, p, t, pos). length t)") auto

declare finditer_from.simps [simp del]

definition re_finditer :: "regex \<Rightarrow> string \<Rightarrow> (nat \<times> nat \<times> string option) list" where
  "re_finditer r text = finditer_from r None text 0"

text \<open>\<open>sub in text\<close> on strings.\<close>

fun contains :: "string \<Rightarrow> string \<Rightarrow> bool" where
  "contains s [] = (s = [])"
| "contains s (x # xs) = (prefix s (x # xs) \<or> contains s xs)"

section \<open>The validator (\<open>robospec/pipeline/validator.py\<close>)\<close>

definition SUPPLEMENTAL_WHITELIST :: "string set" where
  "SUPPLEMENTAL_WHITELIST =
     {''position_command_error'', ''position_command_error_tanh'',
      ''orientation_command_error'', ''joint_pos_target_l2'', ''feet_air_time'',
      ''UniformVelocityCommandCfg'', ''UniformPoseCommandCfg'', ''NullCommandCfg'',
      ''randomize_rigid_body_material'', ''randomize_rigid_body_mass'',
      ''modify_reward_weight'', ''terrain_levels_vel''}"

text \<open>
  The dictionary keeps its insertion order, which is the order of the corrections; a
  value may be \<open>None\<close>.
\<close>

definition COMMON_CORRECTIONS :: "(string \<times> string option) list" where
  "COMMON_CORRECTIONS =
     [(''joint_pos_l2'', Some ''joint_pos_target_l2''),
      (''joint_pos_l1'', Some ''joint_deviation_l1''),
      (''joint_vel_l2_asset'', Some ''joint_vel_l2''),
      (''action_rate_l2_norm'', Some ''action_rate_l2''),
      (''track_lin_vel_xy'', Some ''track_lin_vel_xy_exp''),
      (''track_ang_vel_z'', Some ''track_ang_vel_z_exp''),
      (''base_lin_vel_z_l2'', Some ''lin_vel_z_l2''),
      (''base_ang_vel_xy_l2'', Some ''ang_vel_xy_l2''),
      (''position_error_tanh'', Some ''position_command_error_tanh''),
      (''position_error'', Some ''position_command_error''),
      (''joint_pos_target_l1'', Some ''joint_pos_target_l2''),
      (''action_rate_l1'', Some ''action_rate_l2''),
      (''feet_air_time_biped_reward'', Some ''feet_air_time'')]"

record ValidationResult =
  is_valid :: bool
  errors :: "string list"
  warnings :: "string list"
  corrections :: "string list"

definition new_result :: ValidationResult where
  "new_result = \<lparr>is_valid = True, errors = [], warnings = [], corrections = []\<rparr>"

subsection \<open>\<open>load_api_whitelist\<close>\<close>

text \<open>
  The reference directory \<open>knowledge/api_reference\<close> as the loader sees it: \<open>None\<close>
  when it does not exist, else the texts of its \<open>*.md\<close> files in the order of the
  glob. \<open>lru_cache\<close> keeps the set of the first call for the whole process; the
  function below is that first call.
\<close>

type_synonym api_dir = "string list option"

definition mdp_heading :: regex where
  \<comment> \<open>\<open>^###\s+mdp\.(\w+)\<close>\<close>
  "mdp_heading =
     Seq Bol (Seq (Lit ''###'') (Seq (Plus Space) (Seq (Lit ''mdp.'') (Group (Plus Word)))))"

definition class_heading :: regex where
  \<comment> \<open>\<open>^###\s+([A-Z]\w+)\<close>\<close>
  "class_heading =
     Seq Bol (Seq (Lit ''###'') (Seq (Plus Space) (Group (Seq (One Upper) (Plus Word)))))"

definition group1s :: "regex \<Rightarrow> string \<Rightarrow> string list" where
  "group1s r text = List.map_filter (\<lambda>(s, e, g). g) (re_finditer r text)"

definition scan_file :: "string set \<Rightarrow> string \<Rightarrow> string set" where
  "scan_file symbols text =
     (symbols \<union> set (group1s mdp_heading text)) \<union> set (group1s class_heading text)"

definition load_api_whitelist :: "api_dir \<Rightarrow> string set" where
  "load_api_whitelist dir =
     (case dir of
        None \<Rightarrow> {}
      | Some files \<Rightarrow> foldl scan_file {} files \<union> SUPPLEMENTAL_WHITELIST)"

subsection \<open>\<open>auto_correct_code\<close>\<close>

definition correction_pattern :: "string \<Rightarrow> regex" where
  \<comment> \<open>\<open>mdp\.{re.escape(wrong)}\b\<close>\<close>
  "correction_pattern wrong = Seq (Lit (''mdp.'' @ wrong)) WordB"

fun correct_one :: "string \<times> string option \<Rightarrow> string \<times> string list \<Rightarrow> string \<times> string list" where
  "correct_one (wrong, None) (corrected, cs) = (corrected, cs)"
| "correct_one (wrong, Some right) (corrected, cs) =
     (if re_search (correction_pattern wrong) corrected
      then (re_sub (correction_pattern wrong) (''mdp.'' @ right) corrected,
            cs @ [''mdp.'' @ wrong @ '' -> mdp.'' @ right])
      else (corrected, cs))"

definition auto_correct_code :: "string \<Rightarrow> string \<times> string list" where
  "auto_correct_code code = fold correct_one COMMON_CORRECTIONS (code, [])"

subsection \<open>The syntax tree of \<open>ast.parse\<close>\<close>

text \<open>
  The values a \<open>Constant\<close> node holds. A float is a rational, an infinity or a
  not-a-number; a complex literal is purely imaginary.
\<close>

datatype py_float = Finite rat | PosInf | NegInf | NaN

datatype py_const =
    CInt int
  | CBool bool
  | CFloat py_float
  | CImag py_float
  | CStr string
  | CBytes string
  | CNone
  | CEllipsis

datatype unaryop = Invert | Not_op | UAdd | USub

text \<open>
  The node classes the code tests for, each with the fields it reads, and \<open>Other\<close>
  for every other class with its child nodes in the order of \<open>ast.iter_child_nodes\<close>.
  The leaves that no test of the code looks at and that have no children (expression
  contexts, operator tokens, import aliases) are left out of the walk; the names of an
  \<open>Import\<close>'s aliases are kept as a field.
\<close>

datatype node =
    ClassDef string "node list"        \<comment> \<open>name; bases, keywords, body, decorators\<close>
  | FunctionDef string "node list"     \<comment> \<open>name; arguments, body, decorators, returns\<close>
  | Import "string list"               \<comment> \<open>the \<open>name\<close> of each alias\<close>
  | ImportFrom "string option"         \<comment> \<open>module\<close>
  | Attribute node string              \<comment> \<open>value, attr\<close>
  | Name string                        \<comment> \<open>id\<close>
  | Keyword "string option" node       \<comment> \<open>arg, value\<close>
  | Constant py_const                  \<comment> \<open>value\<close>
  | UnaryOp unaryop node               \<comment> \<open>op, operand\<close>
  | Other "node list"

fun children :: "node \<Rightarrow> node list" where
  "children (ClassDef _ cs) = cs"
| "children (FunctionDef _ cs) = cs"
| "children (Import _) = []"
| "children (ImportFrom _) = []"
| "children (Attribute v _) = [v]"
| "children (Name _) = []"
| "children (Keyword _ v) = [v]"
| "children (Constant _) = []"
| "children (UnaryOp _ e) = [e]"
| "children (Other cs) = cs"

text \<open>\<open>ast.walk\<close>: breadth first, from a queue.\<close>

function walk_queue :: "node list \<Rightarrow> node list" where
  "walk_queue [] = []"
| "walk_queue (n # todo) = n # walk_queue (todo @ children n)"
  by pat_completeness auto
termination
proof (relation "measure (\<lambda>todo. sum_list (map (\<lambda>n. Suc (size n)) todo))")
  show "wf (measure (\<lambda>todo. sum_list (map (\<lambda>n. Suc (size n)) todo)))" by simp
next
  fix n :: node and todo :: "node list"
  have len: "sum_list (map (\<lambda>n. Suc (size n)) cs) = sum_list (map size cs) + length cs"
    for cs :: "node list"
    by (induction cs) simp_all
  have "sum_list (map (\<lambda>n. Suc (size n)) (children n)) < Suc (size n)"
    by (cases n) (simp_all add: size_list_conv_sum_list len)
  then show "(todo @ children n, n # todo)
      \<in> measure (\<lambda>todo. sum_list (map (\<lambda>n. Suc (size n)) todo))"
    by simp
qed

definition walk :: "node \<Rightarrow> node list" where
  "walk tree = walk_queue [tree]"

record syntax_error =
  lineno :: "nat option"
  msg :: string

datatype py_exn = TypeError string

text \<open>
  What the code calls and does not define: the parser, \<open>difflib.get_close_matches\<close>
  with \<open>n=1, cutoff=0.6\<close>, \<open>str\<close> of a constant's value as an f-string renders it, and
  the reference directory. The parser returns a tree or raises a \<open>SyntaxError\<close> with its
  line and message; that is the failure the code catches. The limits of the interpreter
  (the nesting depth the parser can take, the digits of an integer it turns into text)
  are not part of the environment.
\<close>

record environment =
  ast_parse :: "string \<Rightarrow> syntax_error + node"
  get_close_matches :: "string \<Rightarrow> string set \<Rightarrow> string list"
  py_str :: "py_const \<Rightarrow> string"
  api_reference :: api_dir

subsection \<open>\<open>check_api_symbols\<close>\<close>

fun symbol_step :: "environment \<Rightarrow> string set \<Rightarrow> node \<Rightarrow> string list \<times> string set \<Rightarrow> string list \<times> string set" where
  "symbol_step env whitelist (Attribute (Name ident) name) (unknown, seen) =
     (if ident = ''mdp'' \<and> name \<notin> seen
      then
        (if name \<notin> whitelist
         then
           (let suggestion =
                  (case get_close_matches env name whitelist of
                     [] \<Rightarrow> []
                   | m # _ \<Rightarrow> '' Did you mean: mdp.'' @ m @ ''?'')
            in (unknown @ [''Unknown MDP function: mdp.'' @ name @ ''.'' @ suggestion],
                insert name seen))
         else (unknown, insert name seen))
      else (unknown, seen))"
| "symbol_step env whitelist _ (unknown, seen) = (unknown, seen)"

definition check_api_symbols :: "environment \<Rightarrow> string \<Rightarrow> string set \<Rightarrow> string list" where
  "check_api_symbols env code whitelist =
     (case ast_parse env code of
        Inl _ \<Rightarrow> []
      | Inr tree \<Rightarrow> fst (fold (symbol_step env whitelist) (walk tree) ([], {})))"

subsection \<open>\<open>validate_config\<close>\<close>

definition digit_char :: "nat \<Rightarrow> char" where
  "digit_char d = ''0123456789'' ! d"

fun str_nat :: "nat \<Rightarrow> string" where
  "str_nat n = (if n < 10 then [digit_char n] else str_nat (n div 10) @ [digit_char (n mod 10)])"

declare str_nat.simps [simp del]

definition str_lineno :: "nat option \<Rightarrow> string" where
  "str_lineno l = (case l of None \<Rightarrow> ''None'' | Some n \<Rightarrow> str_nat n)"

definition add_error :: "string \<Rightarrow> ValidationResult \<Rightarrow> ValidationResult" where
  "add_error e r = r\<lparr>is_valid := False, errors := errors r @ [e]\<rparr>"

fun class_name :: "node \<Rightarrow> string option" where
  "class_name (ClassDef name _) = Some name"
| "class_name _ = None"

fun method_name :: "node \<Rightarrow> string option" where
  "method_name (FunctionDef name _) = Some name"
| "method_name _ = None"

definition isaac_name :: "string \<Rightarrow> bool" where
  "isaac_name n = (contains ''isaaclab'' n \<or> contains ''omni.isaac'' n)"

fun isaac_import :: "node \<Rightarrow> bool" where
  "isaac_import (Import names) = list_ex isaac_name names"
| "isaac_import (ImportFrom modname) =
     (case modname of None \<Rightarrow> False | Some m \<Rightarrow> m \<noteq> [] \<and> isaac_name m)"
| "isaac_import _ = False"

definition task_mdp_import :: regex where
  \<comment> \<open>\<open>import\s+isaaclab_tasks\.manager_based\.\S+\.mdp\s+as\s+mdp\<close>\<close>
  "task_mdp_import =
     Seq (Lit ''import'') (Seq (Plus Space) (Seq (Lit ''isaaclab_tasks.manager_based.'')
       (Seq (Plus NonSpace) (Seq (Lit ''.mdp'') (Seq (Plus Space) (Seq (Lit ''as'')
         (Seq (Plus Space) (Lit ''mdp''))))))))"

text \<open>\<open>abs\<close> of a constant's value, which raises on a value that is no number.\<close>

datatype py_num = NInt int | NFloat py_float

fun float_abs :: "py_float \<Rightarrow> py_float" where
  "float_abs (Finite q) = Finite \<bar>q\<bar>"
| "float_abs PosInf = PosInf"
| "float_abs NegInf = PosInf"
| "float_abs NaN = NaN"

fun type_name :: "py_const \<Rightarrow> string" where
  "type_name (CInt _) = ''int''"
| "type_name (CBool _) = ''bool''"
| "type_name (CFloat _) = ''float''"
| "type_name (CImag _) = ''complex''"
| "type_name (CStr _) = ''str''"
| "type_name (CBytes _) = ''bytes''"
| "type_name CNone = ''NoneType''"
| "type_name CEllipsis = ''ellipsis''"

fun py_abs :: "py_const \<Rightarrow> py_exn + py_num" where
  "py_abs (CInt i) = Inr (NInt \<bar>i\<bar>)"
| "py_abs (CBool b) = Inr (NInt (if b then 1 else 0))"
| "py_abs (CFloat f) = Inr (NFloat (float_abs f))"
| "py_abs (CImag f) = Inr (NFloat (float_abs f))"
| "py_abs c = Inl (TypeError (''bad operand type for abs(): '' @ [SQ] @ type_name c @ [SQ]))"

fun gt_10 :: "py_num \<Rightarrow> bool" where
  "gt_10 (NInt i) = (10 < i)"
| "gt_10 (NFloat (Finite q)) = (10 < q)"
| "gt_10 (NFloat PosInf) = True"
| "gt_10 (NFloat _) = False"

fun int_or_float :: "py_const \<Rightarrow> bool" where
  "int_or_float (CInt _) = True"
| "int_or_float (CBool _) = True"
| "int_or_float (CFloat _) = True"
| "int_or_float _ = False"

definition large_weight :: "string \<Rightarrow> py_const \<Rightarrow> py_exn + string list" where
  "large_weight shown c =
     (case py_abs c of
        Inl e \<Rightarrow> Inl e
      | Inr weight \<Rightarrow>
          Inr (if gt_10 weight then [''Unusually large reward weight: '' @ shown] else []))"

fun weight_check :: "environment \<Rightarrow> node \<Rightarrow> py_exn + string list" where
  "weight_check env (Keyword arg v) =
     (if arg = Some ''weight''
      then
        (case v of
           Constant c \<Rightarrow> if int_or_float c then large_weight (py_str env c) c else Inr []
         | UnaryOp op operand \<Rightarrow>
             if op = USub
             then (case operand of
                     Constant c \<Rightarrow> large_weight (''-'' @ py_str env c) c
                   | _ \<Rightarrow> Inr [])
             else Inr []
         | _ \<Rightarrow> Inr [])
      else Inr [])"
| "weight_check env _ = Inr []"

fun weight_checks :: "environment \<Rightarrow> node list \<Rightarrow> string list \<Rightarrow> py_exn + string list" where
  "weight_checks env [] ws = Inr ws"
| "weight_checks env (n # ns) ws =
     (case weight_check env n of
        Inl e \<Rightarrow> Inl e
      | Inr w \<Rightarrow> weight_checks env ns (ws @ w))"

definition nucleus_message :: string where
  \<comment> \<open>the dash of the message is no character of the model; its three UTF-8 bytes stand for it\<close>
  "nucleus_message =
     ''Literal ISAACLAB_NUCLEUS_DIR string found '' @ [CHR 0xE2, CHR 0x80, CHR 0x94]
       @ '' use pre-built robot config (e.g. CARTPOLE_CFG.replace(prim_path='{ENV_REGEX_NS}/Robot')) instead''"

definition check_classes :: "node list \<Rightarrow> ValidationResult \<Rightarrow> ValidationResult" where
  "check_classes nodes r0 =
     (let class_names = List.map_filter class_name nodes;
          method_names = List.map_filter method_name nodes;
          r1 = (if \<not> list_ex (contains ''EnvCfg'') class_names
                then add_error ''Missing environment config class: no class with 'EnvCfg' in name found'' r0
                else r0);
          r2 = (if \<not> list_ex (contains ''RewardsCfg'') class_names
                then add_error ''Missing rewards config: no class with 'RewardsCfg' in name found'' r1
                else r1);
          r3 = (if ''__post_init__'' \<notin> set method_names
                then add_error ''Missing __post_init__ method'' r2
                else r2)
      in (if \<not> list_ex isaac_import nodes
          then add_error ''Missing Isaac Lab imports: no imports from 'isaaclab' or 'omni.isaac' found'' r3
          else r3))"

definition check_whitelist :: "environment \<Rightarrow> string \<Rightarrow> ValidationResult \<Rightarrow> ValidationResult" where
  "check_whitelist env code r =
     (let whitelist = load_api_whitelist (api_reference env) in
        if whitelist \<noteq> {}
        then (let unknown_symbols = check_api_symbols env code whitelist in
                if unknown_symbols \<noteq> []
                then r\<lparr>is_valid := False, errors := errors r @ unknown_symbols\<rparr>
                else r)
        else r)"

definition check_text :: "string \<Rightarrow> ValidationResult \<Rightarrow> ValidationResult" where
  "check_text code r0 =
     (let r1 = (if contains (DQ # ''ISAACLAB_NUCLEUS_DIR/'') code
                   \<or> contains (SQ # ''ISAACLAB_NUCLEUS_DIR/'') code
                then add_error nucleus_message r0
                else r0)
      in (if re_search task_mdp_import code
          then r1\<lparr>warnings := warnings r1 @
                 [''Task-specific mdp import found (isaaclab_tasks.manager_based.*.mdp). Use 'import isaaclab.envs.mdp as mdp' for external configs.'']\<rparr>
          else r1))"

definition validate_config :: "environment \<Rightarrow> string \<Rightarrow> py_exn + ValidationResult" where
  "validate_config env code =
     (case ast_parse env code of
        Inl e \<Rightarrow>
          Inr (add_error (''SyntaxError at line '' @ str_lineno (lineno e) @ '': '' @ msg e)
                 new_result)
      | Inr tree \<Rightarrow>
          (let nodes = walk tree;
               r = check_text code (check_whitelist env code (check_classes nodes new_result))
           in case weight_checks env nodes (warnings r) of
                Inl e \<Rightarrow> Inl e
              | Inr ws \<Rightarrow> Inr (r\<lparr>warnings := ws\<rparr>)))"

section \<open>The normalizer (\<open>robospec/pipeline/generator.py\<close>)\<close>

record RobotConfig =
  import_line :: string
  cfg_name :: string
  robot_line :: string

definition replace_call :: "string \<Rightarrow> string" where
  \<comment> \<open>\<open>NAME.replace(prim_path="{ENV_REGEX_NS}/Robot")\<close>\<close>
  "replace_call name =
     name @ ''.replace(prim_path='' @ [DQ] @ ''{ENV_REGEX_NS}/Robot'' @ [DQ] @ '')''"

definition CATEGORY_ROBOT_CONFIG :: "string \<Rightarrow> RobotConfig option" where
  "CATEGORY_ROBOT_CONFIG =
     map_of
       [(''classic_cartpole'',
           \<lparr>import_line = ''from isaaclab_assets.robots.cartpole import CARTPOLE_CFG  # isort:skip'',
            cfg_name = ''CARTPOLE_CFG'',
            robot_line = replace_call ''CARTPOLE_CFG''\<rparr>),
        (''manipulation_reach'',
           \<lparr>import_line = ''from isaaclab_assets.robots.franka import FRANKA_PANDA_HIGH_PD_CFG  # isort: skip'',
            cfg_name = ''FRANKA_PANDA_HIGH_PD_CFG'',
            robot_line = replace_call ''FRANKA_PANDA_HIGH_PD_CFG''\<rparr>),
        (''locomotion_flat'',
           \<lparr>import_line = ''from isaaclab_assets.robots.anymal import ANYMAL_D_CFG  # isort: skip'',
            cfg_name = ''ANYMAL_D_CFG'',
            robot_line = replace_call ''ANYMAL_D_CFG''\<rparr>),
        (''locomotion_rough'',
           \<lparr>import_line = ''from isaaclab_assets.robots.anymal import ANYMAL_D_CFG  # isort: skip'',
            cfg_name = ''ANYMAL_D_CFG'',
            robot_line = replace_call ''ANYMAL_D_CFG''\<rparr>)]"

definition task_mdp_from :: regex where
  \<comment> \<open>\<open>from\s+isaaclab_tasks\.manager_based\.\S+\.mdp\s+import\s+\<close>, the common head of the
      two from-import patterns\<close>
  "task_mdp_from =
     Seq (Lit ''from'') (Seq (Plus Space) (Seq (Lit ''isaaclab_tasks.manager_based.'')
       (Seq (Plus NonSpace) (Seq (Lit ''.mdp'') (Seq (Plus Space) (Seq (Lit ''import'')
         (Plus Space)))))))"

definition task_mdp_from_pattern :: regex where
  \<comment> \<open>\<open>from\s+isaaclab_tasks\.manager_based\.\S+\.mdp\s+import\s+\([^)]*\)\s*\n?\<close>\<close>
  "task_mdp_from_pattern =
     Seq task_mdp_from (Seq (Lit ''('') (Seq (Star (NoneOf '')'')) (Seq (Lit '')'')
       (Seq (Star Space) (Opt (Lit [NL]))))))"

definition task_mdp_from_single :: regex where
  \<comment> \<open>\<open>from\s+isaaclab_tasks\.manager_based\.\S+\.mdp\s+import\s+[^\n(]+\n?\<close>\<close>
  "task_mdp_from_single =
     Seq task_mdp_from (Seq (Plus (NoneOf [NL, CHR ''(''])) (Opt (Lit [NL])))"

definition isaaclab_import :: regex where
  \<comment> \<open>\<open>^(?:from|import)\s+isaaclab(?!_tasks)\S*[^(\n]*$\<close>\<close>
  "isaaclab_import =
     Seq Bol (Seq (Alt (Lit ''from'') (Lit ''import'')) (Seq (Plus Space) (Seq (Lit ''isaaclab'')
       (Seq (NegLook (Lit ''_tasks'')) (Seq (Star NonSpace)
         (Seq (Star (NoneOf [CHR ''('', NL])) Eol))))))"

definition inline_robot_pattern :: regex where
  \<comment> \<open>\<open>(    robot\s*(?::\s*ArticulationCfg\s*)?=\s*)(?!.*\.replace\().*$\<close>\<close>
  "inline_robot_pattern =
     Seq (Group (Seq (Lit ''    robot'') (Seq (Star Space)
            (Seq (Opt (Seq (Lit '':'') (Seq (Star Space) (Seq (Lit ''ArticulationCfg'') (Star Space)))))
              (Seq (Lit ''='') (Star Space))))))
       (Seq (NegLook (Seq (Star Dot) (Lit ''.replace(''))) (Seq (Star Dot) Eol))"

definition literal_nucleus :: regex where
  \<comment> \<open>\<open>"ISAACLAB_NUCLEUS_DIR/[^"]*"\<close>\<close>
  "literal_nucleus =
     Seq (Lit (DQ # ''ISAACLAB_NUCLEUS_DIR/'')) (Seq (Star (NoneOf [DQ])) (Lit [DQ]))"

definition core_import :: string where
  "core_import = ''import isaaclab.envs.mdp as mdp''"

text \<open>Step 1: the three shapes of a task-specific \<open>mdp\<close> import.\<close>

definition fix_mdp_import :: "string \<times> string list \<Rightarrow> string \<times> string list" where
  "fix_mdp_import = (\<lambda>(result, fixes).
     if re_search task_mdp_import result
     then (re_sub task_mdp_import core_import result,
           fixes @ [''Replaced task-specific mdp import with isaaclab.envs.mdp''])
     else (result, fixes))"

definition fix_from_import :: "regex \<Rightarrow> string \<Rightarrow> string \<times> string list \<Rightarrow> string \<times> string list" where
  "fix_from_import pattern note = (\<lambda>(result, fixes).
     if re_search pattern result
     then ((if \<not> contains core_import result
            then re_sub pattern (core_import @ [NL]) result
            else re_sub pattern [] result),
           fixes @ [note])
     else (result, fixes))"

text \<open>Step 2: the import of the pre-built robot configuration.\<close>

definition inject_robot_import :: "RobotConfig \<Rightarrow> string \<times> string list \<Rightarrow> string \<times> string list" where
  "inject_robot_import robot_cfg = (\<lambda>(result, fixes).
     if \<not> contains (cfg_name robot_cfg) result
     then
       (let import_section_end =
              (case re_finditer isaaclab_import result of
                 [] \<Rightarrow> 0
               | ms \<Rightarrow> fst (snd (last ms)))
        in if 0 < import_section_end
           then (take import_section_end result @ [NL, NL] @ import_line robot_cfg
                   @ drop import_section_end result,
                 fixes @ [''Injected robot config import: '' @ cfg_name robot_cfg])
           else (result, fixes))
     else (result, fixes))"

text \<open>Step 3: an inline robot definition, to the end of its last line.\<close>

fun scan_parens :: "int \<Rightarrow> string \<Rightarrow> nat \<Rightarrow> nat option" where
  "scan_parens depth [] i = None"
| "scan_parens depth (c # cs) i =
     (let d = (if c = CHR ''('' then depth + 1 else if c = CHR '')'' then depth - 1 else depth)
      in if d \<le> 0 then Some i else scan_parens d cs (Suc i))"

fun find_char :: "char \<Rightarrow> string \<Rightarrow> nat option" where
  "find_char c [] = None"
| "find_char c (x # xs) = (if x = c then Some 0 else map_option Suc (find_char c xs))"

fun before_first :: "string \<Rightarrow> string \<Rightarrow> string" where
  "before_first sep [] = []"
| "before_first sep (x # xs) = (if prefix sep (x # xs) then [] else x # before_first sep xs)"

definition inline_end :: "string \<Rightarrow> nat \<Rightarrow> nat \<Rightarrow> nat" where
  "inline_end result start match_end =
     (let rest = drop match_end result;
          matched = take (match_end - start) (drop start result);
          paren_depth = int (count_list matched (CHR ''('')) - int (count_list matched (CHR '')''))
      in case scan_parens paren_depth rest 0 of
           None \<Rightarrow> match_end
         | Some i \<Rightarrow>
             (case find_char NL (drop i rest) of
                None \<Rightarrow> match_end + length rest
              | Some k \<Rightarrow> match_end + (i + k)))"

definition replace_inline_robot :: "RobotConfig \<Rightarrow> string \<times> string list \<Rightarrow> string \<times> string list" where
  "replace_inline_robot robot_cfg = (\<lambda>(result, fixes).
     case re_finditer inline_robot_pattern result of
       [] \<Rightarrow> (result, fixes)
     | (start, match_end, g) # _ \<Rightarrow>
         if \<not> contains (cfg_name robot_cfg) (take (match_end - start) (drop start result))
         then
           (let end_pos = inline_end result start match_end;
                indent = before_first ''robot'' (case g of None \<Rightarrow> [] | Some g1 \<Rightarrow> g1);
                replacement = indent @ ''robot: ArticulationCfg = '' @ robot_line robot_cfg
            in (take start result @ replacement @ drop end_pos result,
                fixes @ [''Replaced inline robot definition with '' @ cfg_name robot_cfg
                           @ ''.replace()'']))
         else (result, fixes))"

text \<open>Step 4: a literal path that is still there is reported, not removed.\<close>

definition note_literal_nucleus :: "string \<times> string list \<Rightarrow> string \<times> string list" where
  "note_literal_nucleus = (\<lambda>(result, fixes).
     if re_search literal_nucleus result
     then (result, fixes @ [''Warning: literal ISAACLAB_NUCLEUS_DIR string found in code''])
     else (result, fixes))"

definition post_process_env_cfg :: "string \<Rightarrow> string \<Rightarrow> string \<times> string list" where
  "post_process_env_cfg code category =
     (let s1 = fix_mdp_import (code, []);
          s2 = fix_from_import task_mdp_from_pattern
                 ''Replaced task-specific from-import mdp block with isaaclab.envs.mdp'' s1;
          s3 = fix_from_import task_mdp_from_single
                 ''Replaced task-specific from-import mdp line with isaaclab.envs.mdp'' s2;
          s4 = (case CATEGORY_ROBOT_CONFIG category of
                  None \<Rightarrow> s3
                | Some robot_cfg \<Rightarrow> replace_inline_robot robot_cfg (inject_robot_import robot_cfg s3))
      in note_literal_nucleus s4)"

section \<open>The repair loop (\<open>robospec/cli.py\<close>)\<close>

definition MAX_REPAIR_ATTEMPTS :: nat where
  "MAX_REPAIR_ATTEMPTS = 2"

fun join :: "string \<Rightarrow> string list \<Rightarrow> string" where
  "join sep [] = []"
| "join sep [x] = x"
| "join sep (x # y # ys) = x @ sep @ join sep (y # ys)"

definition build_whitelist_hint :: "environment \<Rightarrow> string list \<Rightarrow> string" where
  "build_whitelist_hint env errs =
     (if \<not> list_ex (contains ''Unknown MDP function'') errs then []
      else ''AVAILABLE MDP FUNCTIONS (use ONLY these):'' @ [NL]
             @ join '', '' (sorted_list_of_set (load_api_whitelist (api_reference env))))"

definition opening_fence :: regex where
  \<comment> \<open>\<open>^```(?:python|bash|sh)?\s*\n?\<close>\<close>
  "opening_fence =
     Seq Bol (Seq (Lit ''```'') (Seq (Opt (Alt (Lit ''python'') (Alt (Lit ''bash'') (Lit ''sh''))))
       (Seq (Star Space) (Opt (Lit [NL])))))"

definition closing_fence :: regex where
  \<comment> \<open>\<open>\n?```\s*$\<close>\<close>
  "closing_fence = Seq (Opt (Lit [NL])) (Seq (Lit ''```'') (Seq (Star Space) Eol))"

definition strip :: "string \<Rightarrow> string" where
  "strip s = rev (dropWhile is_space (rev (dropWhile is_space s)))"

definition strip_code_fences :: "string \<Rightarrow> string" where
  "strip_code_fences code = strip (re_sub closing_fence [] (re_sub opening_fence [] code))"

text \<open>
  A repair request carries the code, its errors and the whitelist hint (the context is
  the same for all). The Generator is any function from the number of requests made
  before and the request to a response; \<open>repair_config\<close> strips the code fences of
  the response.
\<close>

type_synonym request = "string \<times> string list \<times> string"

type_synonym generator = "nat \<Rightarrow> request \<Rightarrow> string"

definition repair_config :: "generator \<Rightarrow> nat \<Rightarrow> request \<Rightarrow> string" where
  "repair_config gen k req = strip_code_fences (gen k req)"

record pipeline_state =
  best_code :: string
  result :: ValidationResult
  requests :: "request list"

text \<open>
  The loop \<open>for attempt in range(MAX_REPAIR_ATTEMPTS)\<close> of \<open>_run_pipeline\<close>, by the
  number of attempts that are left. An exception of the validator ends it. The outcome
  is the list of the requests sent and either the exception or the code and verdict that
  the pipeline goes on with.
\<close>

type_synonym outcome = "request list \<times> (py_exn + string \<times> ValidationResult)"

fun repair_loop :: "environment \<Rightarrow> generator \<Rightarrow> nat \<Rightarrow> pipeline_state \<Rightarrow> outcome" where
  "repair_loop env gen 0 st = (requests st, Inr (best_code st, result st))"
| "repair_loop env gen (Suc n) st =
     (if is_valid (result st) then (requests st, Inr (best_code st, result st))
      else
        (let whitelist_hint = build_whitelist_hint env (errors (result st));
             req = (best_code st, errors (result st), whitelist_hint);
             repaired_code = repair_config gen (length (requests st)) req;
             code' = fst (auto_correct_code repaired_code)
         in case validate_config env code' of
              Inl e \<Rightarrow> (requests st @ [req], Inl e)
            | Inr r \<Rightarrow>
                repair_loop env gen n
                  \<lparr>best_code = code', result = r, requests = requests st @ [req]\<rparr>))"

text \<open>
  Step 4 of \<open>_run_pipeline\<close>: auto-correct and validate the generated configuration,
  then the repair loop.
\<close>

definition run_pipeline :: "environment \<Rightarrow> generator \<Rightarrow> string \<Rightarrow> outcome" where
  "run_pipeline env gen env_cfg =
     (let code = fst (auto_correct_code env_cfg)
      in case validate_config env code of
           Inl e \<Rightarrow> ([], Inl e)
         | Inr r \<Rightarrow>
             repair_loop env gen MAX_REPAIR_ATTEMPTS
               \<lparr>best_code = code, result = r, requests = []\<rparr>)"

section \<open>Concrete sources\<close>

text \<open>
  An environment in which concrete sources can be evaluated. Its parser knows the
  sources of a table, each with the tree that \<open>ast.parse\<close> builds for it (the module,
  its statements and their expressions), and rejects every other text the way it rejects
  \<open>x = = 1\<close>. There is no close match, and \<open>str\<close> is that of integers and strings,
  the only constants of the table.
\<close>

definition src_assign :: string where
  "src_assign = ''x = 1''"

definition tree_assign :: node where
  \<comment> \<open>\<open>Module(body=[Assign(targets=[Name('x')], value=Constant(1))])\<close>\<close>
  "tree_assign = Other [Other [Name ''x'', Constant (CInt 1)]]"

definition src_fake :: string where
  "src_fake = ''x = mdp.totally_fake_function''"

definition tree_fake :: node where
  \<comment> \<open>\<open>Module(body=[Assign(targets=[Name('x')],
        value=Attribute(value=Name('mdp'), attr='totally_fake_function'))])\<close>\<close>
  "tree_fake = Other [Other [Name ''x'', Attribute (Name ''mdp'') ''totally_fake_function'']]"

definition src_twice :: string where
  "src_twice = ''x = mdp.fake_func'' @ [NL] @ ''y = mdp.fake_func''"

definition tree_twice :: node where
  \<comment> \<open>\<open>Module(body=[Assign(targets=[Name('x')], value=Attribute(value=Name('mdp'), attr='fake_func')),
        Assign(targets=[Name('y')], value=Attribute(value=Name('mdp'), attr='fake_func'))])\<close>\<close>
  "tree_twice =
     Other [Other [Name ''x'', Attribute (Name ''mdp'') ''fake_func''],
            Other [Name ''y'', Attribute (Name ''mdp'') ''fake_func'']]"

definition src_weight :: string where
  \<comment> \<open>\<open>f(weight=-"abc")\<close>\<close>
  "src_weight = ''f(weight=-'' @ [DQ] @ ''abc'' @ [DQ] @ '')''"

definition tree_weight :: node where
  \<comment> \<open>\<open>Module(body=[Expr(value=Call(func=Name('f'), args=[], keywords=[keyword(arg='weight',
        value=UnaryOp(op=USub(), operand=Constant('abc')))]))])\<close>\<close>
  "tree_weight =
     Other [Other [Other [Name ''f'',
       Keyword (Some ''weight'') (UnaryOp USub (Constant (CStr ''abc'')))]]]"

definition src_broken :: string where
  "src_broken = ''x = = 1''"

definition demo_parse :: "string \<Rightarrow> syntax_error + node" where
  "demo_parse src =
     (case map_of [(src_assign, tree_assign), (src_fake, tree_fake), (src_twice, tree_twice),
                   (src_weight, tree_weight)] src of
        Some tree \<Rightarrow> Inr tree
      | None \<Rightarrow> Inl \<lparr>lineno = Some 1, msg = ''invalid syntax''\<rparr>)"

fun demo_str :: "py_const \<Rightarrow> string" where
  "demo_str (CInt i) = (if i < 0 then ''-'' else []) @ str_nat (nat \<bar>i\<bar>)"
| "demo_str (CStr s) = s"
| "demo_str _ = []"

definition demo_env :: "api_dir \<Rightarrow> environment" where
  "demo_env dir =
     \<lparr>ast_parse = demo_parse, get_close_matches = (\<lambda>name whitelist. []),
      py_str = demo_str, api_reference = dir\<rparr>"

section \<open>Notions of the specification\<close>

text \<open>The invariant of a verdict: it is invalid exactly when it lists an error.\<close>

definition verdict_ok :: "ValidationResult \<Rightarrow> bool" where
  "verdict_ok r = ((\<not> is_valid r) = (errors r \<noteq> []))"

text \<open>
  The names accessed on the alias \<open>mdp\<close>, in the order of the walk and with their
  repetitions; the first occurrences of a list; the error for an unknown name, with at
  most the best match as a suggestion.
\<close>

fun mdp_attr :: "node \<Rightarrow> string option" where
  "mdp_attr (Attribute (Name ident) name) = (if ident = ''mdp'' then Some name else None)"
| "mdp_attr _ = None"

definition accessed_names :: "node \<Rightarrow> string list" where
  "accessed_names tree = List.map_filter mdp_attr (walk tree)"

fun first_occurrences :: "'a list \<Rightarrow> 'a list" where
  "first_occurrences [] = []"
| "first_occurrences (x # xs) = x # first_occurrences (removeAll x xs)"

definition unknown_error :: "environment \<Rightarrow> string set \<Rightarrow> string \<Rightarrow> string" where
  "unknown_error env whitelist name =
     ''Unknown MDP function: mdp.'' @ name @ ''.''
       @ (case get_close_matches env name whitelist of
            [] \<Rightarrow> []
          | m # _ \<Rightarrow> '' Did you mean: mdp.'' @ m @ ''?'')"

text \<open>The task categories that have a robot configuration.\<close>

definition known_categories :: "string set" where
  "known_categories =
     {''classic_cartpole'', ''manipulation_reach'', ''locomotion_flat'', ''locomotion_rough''}"

definition src_task_import :: string where
  "src_task_import = ''import isaaclab_tasks.manager_based.classic.cartpole.mdp as mdp''"

definition src_literal :: string where
  \<comment> \<open>\<open>p = "ISAACLAB_NUCLEUS_DIR/a"\<close>\<close>
  "src_literal = ''p = '' @ [DQ] @ ''ISAACLAB_NUCLEUS_DIR/a'' @ [DQ]"

definition src_noop :: string where
  "src_noop =
     ''import isaaclab.envs.mdp as mdp'' @ [NL] @ ''class Foo:'' @ [NL] @ ''    pass'' @ [NL]"

text \<open>A Generator that answers every repair request with \<open>f(weight=-"abc")\<close>.\<close>

definition gen_weight :: generator where
  "gen_weight k req = src_weight"

section \<open>The corrections as literal replacements\<close>

text \<open>
  A wrong name is made of word characters, so its pattern matches at a position exactly
  when \<open>mdp.\<close> and the name stand there and no word character follows. \<open>occ\<close> and
  \<open>subst\<close> are the search and the replacement for such a pattern, written out.
\<close>

definition hit :: "string \<Rightarrow> string \<Rightarrow> bool" where
  "hit w t = (prefix (''mdp.'' @ w) t \<and> \<not> word_after (drop (length (''mdp.'' @ w)) t))"

definition wordy :: "string \<Rightarrow> bool" where
  "wordy w = (w \<noteq> [] \<and> list_all is_word_char w)"

fun occ :: "string \<Rightarrow> string \<Rightarrow> bool" where
  "occ w [] = False"
| "occ w (x # xs) = (hit w (x # xs) \<or> occ w xs)"

fun subst :: "string \<Rightarrow> string \<Rightarrow> string \<Rightarrow> string" where
  "subst w r [] = []"
| "subst w r (x # xs) =
     (if hit w (x # xs) then ''mdp.'' @ r @ subst w r (drop (length (''mdp.'' @ w)) (x # xs))
      else x # subst w r xs)"

declare subst.simps(2) [simp del]

text \<open>
  What the proofs need of a table: its names are made of word characters, no wrong name
  ends with \<open>mdp\<close>, and no right name ends with \<open>mdp\<close> or is a wrong name.
\<close>

definition ok_rules :: "string set \<Rightarrow> (string \<times> string option) list \<Rightarrow> bool" where
  "ok_rules W rs =
     list_all (\<lambda>(w, ro). wordy w \<and> \<not> suffix ''mdp'' w \<and> w \<in> W
        \<and> (case ro of None \<Rightarrow> True
            | Some r \<Rightarrow> wordy r \<and> \<not> suffix ''mdp'' r \<and> r \<notin> W)) rs"

section \<open>The normalizer on an unknown category\<close>

lemma unknown_category:
  "category \<notin> known_categories \<Longrightarrow> CATEGORY_ROBOT_CONFIG category = None"
  by (simp add: known_categories_def CATEGORY_ROBOT_CONFIG_def)

text \<open>
  C1, as stated: for every text and every category that is not a known task category,
  \<open>post_process_env_cfg\<close> returns the text unchanged with an empty list of fixes. This
  fails: the canonicalization of a task-specific \<open>mdp\<close> import and the note on a literal
  path do not look at the category. For the category \<open>unknown_category\<close>, the text
  \<open>import isaaclab_tasks.manager_based.classic.cartpole.mdp as mdp\<close> is rewritten and the
  fix recorded, and the text \<open>p = "ISAACLAB_NUCLEUS_DIR/a"\<close> comes back with a note in the
  list of fixes.
\<close>

theorem normalizer_unknown_category_counterexample:
  "''unknown_category'' \<notin> known_categories
   \<and> post_process_env_cfg src_task_import ''unknown_category'' =
       (''import isaaclab.envs.mdp as mdp'',
        [''Replaced task-specific mdp import with isaaclab.envs.mdp''])
   \<and> post_process_env_cfg src_task_import ''unknown_category'' \<noteq> (src_task_import, [])
   \<and> post_process_env_cfg src_literal ''unknown_category'' =
       (src_literal, [''Warning: literal ISAACLAB_NUCLEUS_DIR string found in code''])"
  by code_simp

lemma fix_from_import_keeps: "snd s \<noteq> [] \<Longrightarrow> snd (fix_from_import p n s) \<noteq> []"
  by (cases s) (simp add: fix_from_import_def)

lemma note_literal_nucleus_keeps: "snd s \<noteq> [] \<Longrightarrow> snd (note_literal_nucleus s) \<noteq> []"
  by (cases s) (simp add: note_literal_nucleus_def)

text \<open>
  C1, amended: for every category that is not a known task category,
  \<open>post_process_env_cfg\<close> returns the text unchanged with an empty list of fixes exactly
  for the texts in which none of the three task-specific \<open>mdp\<close> import patterns and no
  literal \<open>"ISAACLAB_NUCLEUS_DIR/..."\<close> string occurs.
\<close>

theorem normalizer_unknown_category_noop:
  assumes "category \<notin> known_categories"
  shows "(post_process_env_cfg x category = (x, [])) =
           (\<not> re_search task_mdp_import x \<and> \<not> re_search task_mdp_from_pattern x
            \<and> \<not> re_search task_mdp_from_single x \<and> \<not> re_search literal_nucleus x)"
proof -
  define s1 where "s1 = fix_mdp_import (x, [])"
  define s2 where "s2 = fix_from_import task_mdp_from_pattern
     ''Replaced task-specific from-import mdp block with isaaclab.envs.mdp'' s1"
  define s3 where "s3 = fix_from_import task_mdp_from_single
     ''Replaced task-specific from-import mdp line with isaaclab.envs.mdp'' s2"
  have pp: "post_process_env_cfg x category = note_literal_nucleus s3"
    using assms by (simp add: post_process_env_cfg_def unknown_category s1_def s2_def s3_def)
  show ?thesis
  proof (cases "re_search task_mdp_import x")
    case True
    then have "snd s1 \<noteq> []" by (simp add: s1_def fix_mdp_import_def)
    then have "snd (note_literal_nucleus s3) \<noteq> []"
      unfolding s3_def s2_def
      by (intro note_literal_nucleus_keeps fix_from_import_keeps)
    with pp True show ?thesis by auto
  next
    case a: False
    then have s1: "s1 = (x, [])" by (simp add: s1_def fix_mdp_import_def)
    show ?thesis
    proof (cases "re_search task_mdp_from_pattern x")
      case True
      with s1 have "snd s2 \<noteq> []" by (simp add: s2_def fix_from_import_def)
      then have "snd (note_literal_nucleus s3) \<noteq> []"
        unfolding s3_def
        by (intro note_literal_nucleus_keeps fix_from_import_keeps)
      with pp True show ?thesis by auto
    next
      case b: False
      with s1 have s2: "s2 = (x, [])" by (simp add: s2_def fix_from_import_def)
      show ?thesis
      proof (cases "re_search task_mdp_from_single x")
        case True
        with s2 have "snd s3 \<noteq> []" by (simp add: s3_def fix_from_import_def)
        then have "snd (note_literal_nucleus s3) \<noteq> []"
          by (rule note_literal_nucleus_keeps)
        with pp True show ?thesis by auto
      next
        case c: False
        with s2 have s3: "s3 = (x, [])" by (simp add: s3_def fix_from_import_def)
        with pp a b c show ?thesis by (simp add: note_literal_nucleus_def)
      qed
    qed
  qed
qed

theorem normalizer_unknown_category_noop_witness:
  "''unknown_category'' \<notin> known_categories
   \<and> \<not> re_search task_mdp_import src_noop
   \<and> \<not> re_search task_mdp_from_pattern src_noop
   \<and> \<not> re_search task_mdp_from_single src_noop
   \<and> \<not> re_search literal_nucleus src_noop
   \<and> post_process_env_cfg src_noop ''unknown_category'' = (src_noop, [])"
proof -
  have w1: "''unknown_category'' \<notin> known_categories"
    by (simp add: known_categories_def)
  have w2: "\<not> re_search task_mdp_import src_noop" by code_simp
  have w3: "\<not> re_search task_mdp_from_pattern src_noop" by code_simp
  have w4: "\<not> re_search task_mdp_from_single src_noop" by code_simp
  have w5: "\<not> re_search literal_nucleus src_noop" by code_simp
  from normalizer_unknown_category_noop [OF w1, of src_noop] w1 w2 w3 w4 w5
  show ?thesis by simp
qed

section \<open>The registry and the supplemental set\<close>

text \<open>
  C2, as stated: every call of \<open>load_api_whitelist\<close> returns a set that contains every
  symbol of \<open>SUPPLEMENTAL_WHITELIST\<close>, whether the reference directory is present or
  absent. This fails for the absent directory: the loader returns the empty set before
  it reaches the union.
\<close>

theorem load_api_whitelist_absent_counterexample:
  "load_api_whitelist None = {} \<and> \<not> SUPPLEMENTAL_WHITELIST \<subseteq> load_api_whitelist None"
  by (simp add: load_api_whitelist_def SUPPLEMENTAL_WHITELIST_def)

text \<open>
  C2, amended: whenever the reference directory is present, whatever its files hold,
  the set that \<open>load_api_whitelist\<close> builds contains every symbol of
  \<open>SUPPLEMENTAL_WHITELIST\<close>; when the directory is absent, the loader returns the empty
  set.
\<close>

theorem load_api_whitelist_supplemental:
  "SUPPLEMENTAL_WHITELIST \<subseteq> load_api_whitelist (Some files)
   \<and> load_api_whitelist None = {}"
  by (simp add: load_api_whitelist_def)

theorem load_api_whitelist_supplemental_witness:
  "SUPPLEMENTAL_WHITELIST \<subseteq> load_api_whitelist (Some [''### mdp.is_alive''])
   \<and> ''is_alive'' \<in> load_api_whitelist (Some [''### mdp.is_alive''])"
  using load_api_whitelist_supplemental [of "[''### mdp.is_alive'']"]
  by (simp add: load_api_whitelist_def scan_file_def group1s_def re_finditer_def
      mdp_heading_def class_heading_def finditer_from.simps is_space_def
      is_word_char_def NL_def)

section \<open>The validator\<close>

text \<open>
  C3: \<open>validate_config\<close> is total and never raises. The code breaks this: for a keyword
  argument \<open>weight\<close> whose value is a negated constant, it takes \<open>abs\<close> of the constant
  without the test for a number that the branch for a plain constant makes. The source
  \<open>f(weight=-"abc")\<close> parses, and the validator raises a \<open>TypeError\<close> on it.
\<close>

theorem validate_config_raises:
  "ast_parse (demo_env None) src_weight = Inr tree_weight
   \<and> validate_config (demo_env None) src_weight = Inl (TypeError (''bad operand type for abs(): '' @ [SQ] @ ''str'' @ [SQ]))"
  by code_simp

text \<open>The same for every environment and every text whose tree holds such a keyword.\<close>

lemma weight_checks_raise:
  "Keyword (Some ''weight'') (UnaryOp USub (Constant (CStr s))) \<in> set nodes
     \<Longrightarrow> \<exists>e. weight_checks env nodes ws = Inl e"
proof (induction nodes arbitrary: ws)
  case Nil
  then show ?case by simp
next
  case (Cons n nodes)
  show ?case
  proof (cases "weight_check env n")
    case (Inl e)
    then show ?thesis by simp
  next
    case (Inr w)
    with Cons.prems have "Keyword (Some ''weight'') (UnaryOp USub (Constant (CStr s))) \<in> set nodes"
      by (auto simp: large_weight_def)
    from Cons.IH [OF this] Inr show ?thesis by simp
  qed
qed

lemma negated_string_weight:
  assumes "ast_parse env code = Inr tree"
    and "Keyword (Some ''weight'') (UnaryOp USub (Constant (CStr s))) \<in> set (walk tree)"
  shows "\<exists>e. validate_config env code = Inl e"
proof -
  from weight_checks_raise [OF assms(2)] obtain e where
    "weight_checks env (walk tree)
       (warnings (check_text code (check_whitelist env code
          (check_classes (walk tree) new_result)))) = Inl e"
    by blast
  with assms(1) show ?thesis by (simp add: validate_config_def Let_def)
qed

lemma verdict_ok_new: "verdict_ok new_result"
  by (simp add: verdict_ok_def new_result_def)

lemma verdict_ok_add_error: "verdict_ok (add_error e r)"
  by (simp add: verdict_ok_def add_error_def)

lemma verdict_ok_classes: "verdict_ok r \<Longrightarrow> verdict_ok (check_classes nodes r)"
  by (simp add: check_classes_def Let_def verdict_ok_add_error)

lemma verdict_ok_whitelist: "verdict_ok r \<Longrightarrow> verdict_ok (check_whitelist env code r)"
  by (simp add: check_whitelist_def Let_def verdict_ok_def)

lemma verdict_ok_text: "verdict_ok r \<Longrightarrow> verdict_ok (check_text code r)"
  by (auto simp: check_text_def Let_def verdict_ok_def add_error_def)

text \<open>
  C4: whenever \<open>validate_config\<close> returns a verdict, \<open>is_valid\<close> is false in it if and
  only if its list of errors is not empty.
\<close>

theorem validate_config_verdict:
  assumes "validate_config env code = Inr v"
  shows "(\<not> is_valid v) = (errors v \<noteq> [])"
proof (cases "ast_parse env code")
  case (Inl e)
  with assms show ?thesis
    by (auto simp: validate_config_def add_error_def new_result_def)
next
  case (Inr tree)
  define r where
    "r = check_text code (check_whitelist env code (check_classes (walk tree) new_result))"
  have ok: "verdict_ok r"
    unfolding r_def
    by (intro verdict_ok_text verdict_ok_whitelist verdict_ok_classes verdict_ok_new)
  from assms Inr obtain ws where "v = r\<lparr>warnings := ws\<rparr>"
    by (auto simp: validate_config_def Let_def r_def split: sum.splits)
  with ok show ?thesis by (simp add: verdict_ok_def)
qed

theorem validate_config_verdict_witness:
  "validate_config (demo_env None) src_assign =
     Inr \<lparr>is_valid = False,
          errors =
            [''Missing environment config class: no class with 'EnvCfg' in name found'',
             ''Missing rewards config: no class with 'RewardsCfg' in name found'',
             ''Missing __post_init__ method'',
             ''Missing Isaac Lab imports: no imports from 'isaaclab' or 'omni.isaac' found''],
          warnings = [], corrections = []\<rparr>
   \<and> validate_config (demo_env None) src_broken =
       Inr \<lparr>is_valid = False, errors = [''SyntaxError at line 1: invalid syntax''],
            warnings = [], corrections = []\<rparr>"
proof -
  have a: "validate_config (demo_env None) src_assign =
     Inr \<lparr>is_valid = False,
          errors =
            [''Missing environment config class: no class with 'EnvCfg' in name found'',
             ''Missing rewards config: no class with 'RewardsCfg' in name found'',
             ''Missing __post_init__ method'',
             ''Missing Isaac Lab imports: no imports from 'isaaclab' or 'omni.isaac' found''],
          warnings = [], corrections = []\<rparr>"
    by code_simp
  have b: "validate_config (demo_env None) src_broken =
       Inr \<lparr>is_valid = False, errors = [''SyntaxError at line 1: invalid syntax''],
            warnings = [], corrections = []\<rparr>"
    by code_simp
  from validate_config_verdict [OF a] validate_config_verdict [OF b] a b
  show ?thesis by simp
qed

text \<open>
  C8: for every text that fails to parse, \<open>validate_config\<close> returns at once a verdict
  with exactly one error, which names the line and the reason of the parser, and with no
  warning; no other check adds to it.
\<close>

theorem validate_config_parse_failure:
  assumes "ast_parse env code = Inl e"
  shows "validate_config env code =
           Inr \<lparr>is_valid = False,
                errors = [''SyntaxError at line '' @ str_lineno (lineno e) @ '': '' @ msg e],
                warnings = [], corrections = []\<rparr>"
  using assms by (simp add: validate_config_def add_error_def new_result_def)

theorem validate_config_parse_failure_witness:
  "ast_parse (demo_env None) src_broken = Inl \<lparr>lineno = Some 1, msg = ''invalid syntax''\<rparr>
   \<and> validate_config (demo_env None) src_broken =
        Inr \<lparr>is_valid = False, errors = [''SyntaxError at line 1: invalid syntax''],
             warnings = [], corrections = []\<rparr>"
proof -
  have p: "ast_parse (demo_env None) src_broken
             = Inl \<lparr>lineno = Some 1, msg = ''invalid syntax''\<rparr>"
    by code_simp
  from validate_config_parse_failure [OF p] p show ?thesis
    by (simp add: str_lineno_def str_nat.simps digit_char_def)
qed

section \<open>The whitelist check\<close>

lemma symbol_step_eq:
  "symbol_step env wl n (u, seen) =
     (case mdp_attr n of
        None \<Rightarrow> (u, seen)
      | Some a \<Rightarrow>
          if a \<in> seen then (u, seen)
          else (if a \<in> wl then u else u @ [unknown_error env wl a], insert a seen))"
  by (cases "(env, wl, n, (u, seen))" rule: symbol_step.cases)
     (auto simp: unknown_error_def Let_def)

lemma set_first_occurrences [simp]: "set (first_occurrences xs) = set xs"
  by (induction xs rule: first_occurrences.induct) auto

lemma distinct_first_occurrences: "distinct (first_occurrences xs)"
  by (induction xs rule: first_occurrences.induct) auto

lemma removeAll_filter_seen:
  "removeAll a (filter (\<lambda>n. n \<notin> seen) xs) = filter (\<lambda>n. n \<notin> insert a seen) xs"
  by (induction xs) auto

text \<open>The loop over the walk, from any list of errors and any set of names seen.\<close>

lemma fold_symbol_step:
  "fst (fold (symbol_step env wl) nodes (u, seen)) =
     u @ map (unknown_error env wl)
           (filter (\<lambda>n. n \<notin> wl)
              (first_occurrences (filter (\<lambda>n. n \<notin> seen) (List.map_filter mdp_attr nodes))))"
proof (induction nodes arbitrary: u seen)
  case Nil
  then show ?case by simp
next
  case (Cons n nodes)
  show ?case
  proof (cases "mdp_attr n")
    case None
    then show ?thesis using Cons.IH [of u seen]
      by (simp add: symbol_step_eq)
  next
    case (Some a)
    show ?thesis
    proof (cases "a \<in> seen")
      case True
      with Some show ?thesis using Cons.IH [of u seen]
        by (simp add: symbol_step_eq)
    next
      case False
      with Some show ?thesis
        using Cons.IH [of "if a \<in> wl then u else u @ [unknown_error env wl a]" "insert a seen"]
        by (simp add: symbol_step_eq removeAll_filter_seen)
    qed
  qed
qed

lemma contains_prefix: "prefix s t \<Longrightarrow> contains s t"
  by (cases t) simp_all

lemma contains_append: "contains s (a @ s @ b)"
  by (induction a) (simp_all add: contains_prefix)

lemma removeAll_only: "set xs \<subseteq> {n} \<Longrightarrow> removeAll n xs = []"
  by (induction xs) auto

lemma first_occurrences_single:
  assumes "set xs = {n}"
  shows "first_occurrences xs = [n]"
proof (cases xs)
  case Nil
  with assms show ?thesis by simp
next
  case (Cons x xs')
  with assms have "x = n" and "set xs' \<subseteq> {n}" by auto
  with Cons show ?thesis by (simp add: removeAll_only)
qed

text \<open>
  C9: for every text that parses and every whitelist, \<open>check_api_symbols\<close> returns one
  error for each distinct name that is accessed on \<open>mdp\<close> and is not in the whitelist, in
  the order of the first occurrences, however often the name is used; the error holds
  the name; it ends with at most one suggestion; and a tree whose only accessed name is
  an unknown one yields exactly one error, the one of that name.
\<close>

theorem check_api_symbols_dedup:
  assumes "ast_parse env code = Inr tree"
  shows "check_api_symbols env code whitelist =
           map (unknown_error env whitelist)
             (filter (\<lambda>n. n \<notin> whitelist) (first_occurrences (accessed_names tree)))
         \<and> distinct (first_occurrences (accessed_names tree))
         \<and> (\<forall>n. contains n (unknown_error env whitelist n))
         \<and> (\<forall>n. unknown_error env whitelist n = ''Unknown MDP function: mdp.'' @ n @ ''.''
                \<or> (\<exists>m. unknown_error env whitelist n =
                      ''Unknown MDP function: mdp.'' @ n @ ''.'' @ '' Did you mean: mdp.'' @ m @ ''?''))
         \<and> (\<forall>n. set (accessed_names tree) = {n} \<and> n \<notin> whitelist \<longrightarrow>
                check_api_symbols env code whitelist = [unknown_error env whitelist n])"
proof -
  have eq: "check_api_symbols env code whitelist =
           map (unknown_error env whitelist)
             (filter (\<lambda>n. n \<notin> whitelist) (first_occurrences (accessed_names tree)))"
    using assms fold_symbol_step [of env whitelist "walk tree" "[]" "{}"]
    by (simp add: check_api_symbols_def accessed_names_def)
  have c: "contains n (unknown_error env whitelist n)" for n
    unfolding unknown_error_def by (rule contains_append)
  have s: "unknown_error env whitelist n = ''Unknown MDP function: mdp.'' @ n @ ''.''
             \<or> (\<exists>m. unknown_error env whitelist n =
                   ''Unknown MDP function: mdp.'' @ n @ ''.'' @ '' Did you mean: mdp.'' @ m @ ''?'')"
    for n
    by (cases "get_close_matches env n whitelist") (simp_all add: unknown_error_def)
  have one: "check_api_symbols env code whitelist = [unknown_error env whitelist n]"
    if "set (accessed_names tree) = {n}" "n \<notin> whitelist" for n
    using that eq by (simp add: first_occurrences_single)
  show ?thesis
  proof (intro conjI allI impI)
    show "check_api_symbols env code whitelist =
           map (unknown_error env whitelist)
             (filter (\<lambda>n. n \<notin> whitelist) (first_occurrences (accessed_names tree)))"
      by (rule eq)
    show "distinct (first_occurrences (accessed_names tree))"
      by (rule distinct_first_occurrences)
    show "contains n (unknown_error env whitelist n)" for n
      by (rule c)
    show "unknown_error env whitelist n = ''Unknown MDP function: mdp.'' @ n @ ''.''
            \<or> (\<exists>m. unknown_error env whitelist n =
                  ''Unknown MDP function: mdp.'' @ n @ ''.'' @ '' Did you mean: mdp.'' @ m @ ''?'')"
      for n
      by (rule s)
    show "check_api_symbols env code whitelist = [unknown_error env whitelist n]"
      if "set (accessed_names tree) = {n} \<and> n \<notin> whitelist" for n
      using that one by blast
  qed
qed

theorem check_api_symbols_dedup_witness:
  "ast_parse (demo_env None) src_twice = Inr tree_twice
   \<and> accessed_names tree_twice = [''fake_func'', ''fake_func'']
   \<and> check_api_symbols (demo_env None) src_twice {''is_alive''} =
        [''Unknown MDP function: mdp.fake_func.'']
   \<and> ast_parse (demo_env None) src_fake = Inr tree_fake
   \<and> set (accessed_names tree_fake) = {''totally_fake_function''}
   \<and> ''totally_fake_function'' \<notin> {''is_alive''}
   \<and> check_api_symbols (demo_env None) src_fake {''is_alive''} =
        [''Unknown MDP function: mdp.totally_fake_function.'']"
proof -
  have p: "ast_parse (demo_env None) src_twice = Inr tree_twice"
    by code_simp
  have a: "accessed_names tree_twice = [''fake_func'', ''fake_func'']"
    by (simp add: accessed_names_def tree_twice_def walk_def)
  have q: "ast_parse (demo_env None) src_fake = Inr tree_fake"
    by code_simp
  have b: "accessed_names tree_fake = [''totally_fake_function'']"
    by (simp add: accessed_names_def tree_fake_def walk_def)
  have u: "unknown_error (demo_env None) {''is_alive''} n = ''Unknown MDP function: mdp.'' @ n @ ''.''"
    for n
    by (simp add: unknown_error_def demo_env_def)
  have one: "check_api_symbols (demo_env None) src_twice {''is_alive''} =
        [''Unknown MDP function: mdp.fake_func.'']"
    unfolding check_api_symbols_dedup [OF p, of "{''is_alive''}", THEN conjunct1] a
    by (simp add: u)
  have two: "check_api_symbols (demo_env None) src_fake {''is_alive''} =
        [''Unknown MDP function: mdp.totally_fake_function.'']"
    unfolding check_api_symbols_dedup [OF q, of "{''is_alive''}", THEN conjunct1] b
    by (simp add: u)
  from p a one q b two show ?thesis by simp
qed

text \<open>
  C10: for every text that fails to parse and every whitelist, \<open>check_api_symbols\<close>
  returns the empty list.
\<close>

theorem check_api_symbols_unparseable:
  assumes "ast_parse env code = Inl e"
  shows "check_api_symbols env code whitelist = []"
  using assms by (simp add: check_api_symbols_def)

theorem check_api_symbols_unparseable_witness:
  "ast_parse (demo_env None) src_broken = Inl \<lparr>lineno = Some 1, msg = ''invalid syntax''\<rparr>
   \<and> check_api_symbols (demo_env None) src_broken {''is_alive''} = []"
proof -
  have p: "ast_parse (demo_env None) src_broken
             = Inl \<lparr>lineno = Some 1, msg = ''invalid syntax''\<rparr>"
    by code_simp
  from check_api_symbols_unparseable [OF p] p show ?thesis by simp
qed

section \<open>The repair loop\<close>

lemma repair_loop_requests:
  "length (fst (repair_loop env gen n st)) \<le> length (requests st) + n"
proof (induction n arbitrary: st)
  case 0
  show ?case by simp
next
  case (Suc n)
  show ?case
  proof (cases "is_valid (result st)")
    case True
    then show ?thesis by simp
  next
    case False
    define req where
      "req = (best_code st, errors (result st), build_whitelist_hint env (errors (result st)))"
    define code' where
      "code' = fst (auto_correct_code (repair_config gen (length (requests st)) req))"
    show ?thesis
    proof (cases "validate_config env code'")
      case (Inl e)
      with False show ?thesis by (simp add: Let_def req_def code'_def)
    next
      case (Inr r)
      with False Suc.IH [of "\<lparr>best_code = code', result = r, requests = requests st @ [req]\<rparr>"]
      show ?thesis by (simp add: Let_def req_def code'_def)
    qed
  qed
qed

text \<open>The loop never sends more than two repair requests, whatever its outcome.\<close>

lemma run_pipeline_requests:
  "length (fst (run_pipeline env gen env_cfg)) \<le> MAX_REPAIR_ATTEMPTS"
proof (cases "validate_config env (fst (auto_correct_code env_cfg))")
  case (Inl e)
  then show ?thesis by (simp add: run_pipeline_def)
next
  case (Inr r)
  with repair_loop_requests
    [of env gen MAX_REPAIR_ATTEMPTS
        "\<lparr>best_code = fst (auto_correct_code env_cfg), result = r, requests = []\<rparr>"]
  show ?thesis by (simp add: run_pipeline_def)
qed

text \<open>When the validator raises on no text, the loop returns an artifact with its verdict.\<close>

lemma repair_loop_returns:
  assumes "\<And>code. \<exists>v. validate_config env code = Inr v"
  shows "\<exists>code v. snd (repair_loop env gen n st) = Inr (code, v)"
proof (induction n arbitrary: st)
  case 0
  show ?case by simp
next
  case (Suc n)
  show ?case
  proof (cases "is_valid (result st)")
    case True
    then show ?thesis by simp
  next
    case False
    define req where
      "req = (best_code st, errors (result st), build_whitelist_hint env (errors (result st)))"
    define code' where
      "code' = fst (auto_correct_code (repair_config gen (length (requests st)) req))"
    from assms obtain r where r: "validate_config env code' = Inr r" by blast
    with False Suc.IH [of "\<lparr>best_code = code', result = r, requests = requests st @ [req]\<rparr>"]
    show ?thesis by (simp add: Let_def req_def code'_def)
  qed
qed

text \<open>
  C5: for every artifact and all responses of the Generator, the loop sends at most two
  repair requests, ends, and returns the last artifact with its verdict. The code breaks
  the last part: the validator raises on an artifact with a keyword \<open>weight\<close> whose value
  is a negated constant that is no number (the defect of C3), and the loop does not
  catch it. From the artifact \<open>x = 1\<close> and the response \<open>f(weight=-"abc")\<close> to the first
  repair request, the pipeline ends with a \<open>TypeError\<close> and returns no artifact.
\<close>

theorem run_pipeline_raises:
  "run_pipeline (demo_env None) gen_weight src_assign =
     ([(src_assign,
        [''Missing environment config class: no class with 'EnvCfg' in name found'',
         ''Missing rewards config: no class with 'RewardsCfg' in name found'',
         ''Missing __post_init__ method'',
         ''Missing Isaac Lab imports: no imports from 'isaaclab' or 'omni.isaac' found''],
        [])],
      Inl (TypeError (''bad operand type for abs(): '' @ [SQ] @ ''str'' @ [SQ])))"
  by code_simp

section \<open>The auto-corrector\<close>

lemma word_m [simp]: "is_word_char (CHR ''m'')" by (simp add: is_word_char_def)
lemma word_d [simp]: "is_word_char (CHR ''d'')" by (simp add: is_word_char_def)
lemma word_p [simp]: "is_word_char (CHR ''p'')" by (simp add: is_word_char_def)
lemma word_dot [simp]: "\<not> is_word_char (CHR ''.'')" by (simp add: is_word_char_def)

lemma word_after_simps [simp]:
  "word_after [] = False" "word_after (c # cs) = is_word_char c"
  by (simp_all add: word_after_def)

lemma hit_iff: "hit w t = (\<exists>rest. t = ''mdp.'' @ w @ rest \<and> \<not> word_after rest)"
proof
  assume "hit w t"
  then obtain rest where "t = (''mdp.'' @ w) @ rest"
    and "\<not> word_after (drop (length (''mdp.'' @ w)) t)"
    by (auto simp: hit_def prefix_def)
  then show "\<exists>rest. t = ''mdp.'' @ w @ rest \<and> \<not> word_after rest" by auto
next
  assume "\<exists>rest. t = ''mdp.'' @ w @ rest \<and> \<not> word_after rest"
  then show "hit w t" by (auto simp: hit_def)
qed

lemma hit_Nil [simp]: "\<not> hit w []"
  by (simp add: hit_def)

lemma hit_hd: "hit w (x # xs) \<Longrightarrow> x = CHR ''m''"
  by (auto simp: hit_iff)

lemma rx_correction:
  assumes "wordy w"
  shows "rx (correction_pattern w) (p, t, g) =
           (if hit w t then [(Some (last w), drop (length (''mdp.'' @ w)) t, g)] else [])"
proof -
  from assms have "w \<noteq> []" and "is_word_char (last w)"
    by (auto simp: wordy_def list_all_iff)
  then show ?thesis
    by (simp add: correction_pattern_def hit_def word_before_def)
qed

lemma search_from_correction:
  assumes "wordy w"
  shows "search_from (correction_pattern w) p t = occ w t"
  by (induction t arbitrary: p) (simp_all add: rx_correction [OF assms])

lemma re_search_correction: "wordy w \<Longrightarrow> re_search (correction_pattern w) t = occ w t"
  by (simp add: re_search_def search_from_correction)

lemma sub_from_correction:
  "wordy w \<Longrightarrow> sub_from (correction_pattern w) (''mdp.'' @ r) p t = subst w r t"
proof (induction w r t arbitrary: p rule: subst.induct)
  case (1 w r)
  then show ?case
    by (simp add: sub_from.simps [of _ _ _ "[]"] rx_correction)
next
  case (2 w r x xs)
  show ?case
  proof (cases "hit w (x # xs)")
    case True
    then have len: "length (''mdp.'' @ w) \<le> length (x # xs)"
      by (auto simp: hit_iff)
    from True 2(1) [OF True] 2(3) len show ?thesis
      by (simp add: sub_from.simps [of _ _ _ "x # xs"] rx_correction subst.simps(2))
  next
    case False
    with 2(2) [OF False] 2(3) show ?thesis
      by (simp add: sub_from.simps [of _ _ _ "x # xs"] rx_correction subst.simps(2))
  qed
qed

lemma re_sub_correction: "wordy w \<Longrightarrow> re_sub (correction_pattern w) (''mdp.'' @ r) t = subst w r t"
  unfolding re_sub_def by (rule sub_from_correction)


lemma subst_hit:
  assumes "hit w t"
  obtains z where "t = ''mdp.'' @ w @ z" "\<not> word_after z"
    "subst w r t = ''mdp.'' @ r @ subst w r z"
proof -
  from assms obtain z where z: "t = ''mdp.'' @ w @ z" "\<not> word_after z"
    by (auto simp: hit_iff)
  with assms have "subst w r t = ''mdp.'' @ r @ subst w r z"
    by (simp add: subst.simps(2))
  with z that show thesis by blast
qed

lemma subst_miss: "\<not> hit w (x # xs) \<Longrightarrow> subst w r (x # xs) = x # subst w r xs"
  by (simp add: subst.simps(2))

lemma subst_not_m: "x \<noteq> CHR ''m'' \<Longrightarrow> subst w r (x # xs) = x # subst w r xs"
  using hit_hd [of w x xs] subst_miss [of w x xs r] by blast

lemma subst_Nil_iff [simp]: "(subst w r t = []) = (t = [])"
  by (cases t) (auto simp: subst.simps(2))

lemma word_after_subst [simp]: "word_after (subst w r t) = word_after t"
proof (cases t)
  case Nil
  then show ?thesis by simp
next
  case (Cons x xs)
  show ?thesis
  proof (cases "hit w t")
    case True
    then show ?thesis by (auto elim!: subst_hit [where r = r])
  next
    case False
    with Cons show ?thesis by (simp add: subst_miss)
  qed
qed

lemma subst_Cons_inv:
  assumes "subst w r t = c # u" and "c \<noteq> CHR ''m''"
  shows "\<exists>xs. t = c # xs \<and> subst w r xs = u"
proof (cases t)
  case Nil
  with assms show ?thesis by simp
next
  case (Cons x xs)
  have "\<not> hit w t"
  proof
    assume "hit w t"
    then obtain z where "subst w r t = ''mdp.'' @ r @ subst w r z"
      by (rule subst_hit)
    with assms show False by simp
  qed
  with Cons assms have "x = c" "subst w r xs = u" by (simp_all add: subst_miss)
  with Cons show ?thesis by blast
qed

text \<open>A run of word characters that ends in the corrected text stood in the text.\<close>

lemma subst_run_back:
  assumes "list_all is_word_char q" and "subst w r t = q @ rest'" and "\<not> word_after rest'"
  shows "\<exists>rest. t = q @ rest \<and> \<not> word_after rest"
  using assms
proof (induction q arbitrary: t)
  case Nil
  then have "\<not> word_after (subst w r t)" by simp
  then show ?case by simp
next
  case (Cons a q)
  show ?case
  proof (cases "hit w t")
    case True
    then obtain z where z: "t = ''mdp.'' @ w @ z" "\<not> word_after z"
      "subst w r t = ''mdp.'' @ r @ subst w r z"
      by (rule subst_hit)
    with Cons.prems have eq: "a # q @ rest' = ''mdp.'' @ r @ subst w r z" by simp
    then have a: "a = CHR ''m''" by simp
    from eq have q1: "q @ rest' = ''dp.'' @ r @ subst w r z" by simp
    show ?thesis
    proof (cases q)
      case Nil
      with q1 Cons.prems(3) show ?thesis by auto
    next
      case q: (Cons b q2)
      with q1 have b: "b = CHR ''d''" and q2: "q2 @ rest' = ''p.'' @ r @ subst w r z" by auto
      show ?thesis
      proof (cases q2)
        case Nil
        with q2 Cons.prems(3) show ?thesis by auto
      next
        case q2c: (Cons c q3)
        with q2 have c: "c = CHR ''p''" and q3: "q3 @ rest' = ''.'' @ r @ subst w r z" by auto
        show ?thesis
        proof (cases q3)
          case Nil
          with a b c q q2c z show ?thesis by simp
        next
          case (Cons d q4)
          with q3 have "d = CHR ''.''" by simp
          with Cons q q2c Cons.prems(1) show ?thesis by simp
        qed
      qed
    qed
  next
    case False
    from Cons.prems(2) have "t \<noteq> []" by auto
    then obtain x xs where t: "t = x # xs" by (cases t) auto
    with False Cons.prems(2) have "x = a" and s: "subst w r xs = q @ rest'"
      by (simp_all add: subst_miss)
    from Cons.prems(1) have "list_all is_word_char q" by simp
    from Cons.IH [OF this s Cons.prems(3)] obtain rest where "xs = q @ rest" "\<not> word_after rest"
      by blast
    with t \<open>x = a\<close> show ?thesis by simp
  qed
qed

lemma word_run_unique:
  assumes "list_all is_word_char u" "list_all is_word_char v" "u @ a = v @ b"
    "\<not> word_after a" "\<not> word_after b"
  shows "u = v \<and> a = b"
  using assms
proof (induction u arbitrary: v)
  case Nil
  then show ?case by (cases v) auto
next
  case (Cons x u)
  show ?case
  proof (cases v)
    case Nil
    with Cons.prems show ?thesis by auto
  next
    case v: (Cons y v')
    with Cons.prems have "x = y" "u @ a = v' @ b" "list_all is_word_char u"
      "list_all is_word_char v'" by auto
    with Cons.IH [of v'] Cons.prems v show ?thesis by auto
  qed
qed

text \<open>A match in the corrected text stood in the text, or is a replacement.\<close>

lemma hit_subst_back:
  assumes "wordy w" "wordy r" "wordy w'" and h: "hit w' (subst w r t)"
  shows "hit w' t \<or> (hit w t \<and> w' = r)"
proof (cases "hit w t")
  case True
  then obtain z where z: "t = ''mdp.'' @ w @ z" "\<not> word_after z"
    "subst w r t = ''mdp.'' @ r @ subst w r z"
    by (rule subst_hit)
  from h obtain rest where rest: "subst w r t = ''mdp.'' @ w' @ rest" "\<not> word_after rest"
    by (auto simp: hit_iff)
  with z have "w' @ rest = r @ subst w r z" by simp
  with assms(2,3) z(2) rest(2) have "w' = r"
    using word_run_unique [of w' r rest "subst w r z"] by (simp add: wordy_def)
  with True show ?thesis by simp
next
  case False
  from h obtain rest where rest: "subst w r t = ''mdp.'' @ w' @ rest" "\<not> word_after rest"
    by (auto simp: hit_iff)
  from h have "t \<noteq> []" by (cases t) auto
  then obtain x xs where t: "t = x # xs" by (cases t) auto
  with False rest have x: "x = CHR ''m''" and s1: "subst w r xs = ''dp.'' @ w' @ rest"
    by (simp_all add: subst_miss)
  from s1 have "subst w r xs = CHR ''d'' # (''p.'' @ w' @ rest)" by simp
  from subst_Cons_inv [OF this] obtain ys
    where ys: "xs = CHR ''d'' # ys" "subst w r ys = CHR ''p'' # (''.'' @ w' @ rest)"
    by auto
  from subst_Cons_inv [OF ys(2)] obtain zs
    where zs: "ys = CHR ''p'' # zs" "subst w r zs = CHR ''.'' # (w' @ rest)"
    by auto
  from subst_Cons_inv [OF zs(2)] obtain vs
    where vs: "zs = CHR ''.'' # vs" "subst w r vs = w' @ rest"
    by auto
  from assms(3) have "list_all is_word_char w'" by (simp add: wordy_def)
  from subst_run_back [OF this vs(2) rest(2)] obtain rest0
    where "vs = w' @ rest0" "\<not> word_after rest0" by blast
  with t x ys zs vs have "hit w' t" by (simp add: hit_iff)
  then show ?thesis by simp
qed


lemma occ_append: "occ w b \<Longrightarrow> occ w (a @ b)"
  by (induction a) auto

lemma hit_not_m: "x \<noteq> CHR ''m'' \<Longrightarrow> \<not> hit w (x # xs)"
  using hit_hd [of w x xs] by auto

text \<open>No match begins in a run of word characters, unless the run ends with \<open>mdp\<close>.\<close>

lemma hit_in_run:
  assumes "list_all is_word_char q" "\<not> word_after s" "hit w (q @ s)" "q \<noteq> []"
  shows "q = ''mdp''"
proof -
  from assms(3) obtain rest where eq: "q @ s = ''mdp.'' @ w @ rest"
    by (auto simp: hit_iff)
  from assms(4) obtain a q1 where q: "q = a # q1" by (cases q) auto
  with eq have a: "a = CHR ''m''" and e1: "q1 @ s = ''dp.'' @ w @ rest" by auto
  show ?thesis
  proof (cases q1)
    case Nil
    with e1 assms(2) show ?thesis by auto
  next
    case q1: (Cons b q2)
    with e1 have b: "b = CHR ''d''" and e2: "q2 @ s = ''p.'' @ w @ rest" by auto
    show ?thesis
    proof (cases q2)
      case Nil
      with e2 assms(2) show ?thesis by auto
    next
      case q2: (Cons c q3)
      with e2 have c: "c = CHR ''p''" and e3: "q3 @ s = ''.'' @ w @ rest" by auto
      show ?thesis
      proof (cases q3)
        case Nil
        with q q1 q2 a b c show ?thesis by simp
      next
        case (Cons d q4)
        with e3 have "d = CHR ''.''" by simp
        with Cons q q1 q2 assms(1) show ?thesis by simp
      qed
    qed
  qed
qed

lemma occ_word_run:
  assumes "list_all is_word_char q" "\<not> word_after s" "\<not> suffix ''mdp'' q"
  shows "occ w (q @ s) = occ w s"
  using assms
proof (induction q)
  case Nil
  then show ?case by simp
next
  case (Cons c q)
  have "\<not> hit w ((c # q) @ s)"
  proof
    assume "hit w ((c # q) @ s)"
    with Cons.prems(1,2) have "c # q = ''mdp''"
      by (intro hit_in_run [of "c # q" s w]) simp_all
    with Cons.prems(3) show False by simp
  qed
  moreover from Cons.prems(3) have "\<not> suffix ''mdp'' q"
    by (auto simp: suffix_Cons)
  moreover from Cons.prems(1) have "list_all is_word_char q" by simp
  ultimately show ?case using Cons.IH Cons.prems(2) by simp
qed

text \<open>
  A correction makes no new match: what matches a wrong name afterwards matched it
  before, and it is not the name that was corrected.
\<close>

lemma occ_subst_back:
  assumes "wordy w" "wordy r" "wordy w'" "w' \<noteq> r" "\<not> suffix ''mdp'' r"
  shows "occ w' (subst w r t) \<Longrightarrow> occ w' t \<and> w' \<noteq> w"
proof (induction "length t" arbitrary: t rule: less_induct)
  case less
  from less.prems have "t \<noteq> []" by (cases t) auto
  then obtain x xs where t: "t = x # xs" by (cases t) auto
  from assms have rw: "list_all is_word_char r" and ww: "list_all is_word_char w'"
    by (simp_all add: wordy_def)
  show ?case
  proof (cases "hit w t")
    case True
    then obtain z where z: "t = ''mdp.'' @ w @ z" "\<not> word_after z"
      "subst w r t = ''mdp.'' @ r @ subst w r z"
      by (rule subst_hit)
    have nohit: "\<not> hit w' (''mdp.'' @ r @ subst w r z)"
    proof
      assume "hit w' (''mdp.'' @ r @ subst w r z)"
      then obtain rest where "r @ subst w r z = w' @ rest" "\<not> word_after rest"
        by (auto simp: hit_iff)
      with rw ww z(2) have "r = w'"
        using word_run_unique [of r w' "subst w r z" rest] by simp
      with assms(4) show False by simp
    qed
    from less.prems z(3) have "occ w' (''mdp.'' @ r @ subst w r z)" by simp
    with nohit have "occ w' (''dp.'' @ r @ subst w r z)" by simp
    then have "occ w' (r @ subst w r z)" by (simp add: hit_not_m)
    with rw z(2) assms(5) have "occ w' (subst w r z)"
      by (simp add: occ_word_run)
    moreover from z(1) have "length z < length t" by simp
    ultimately have "occ w' z \<and> w' \<noteq> w" by (rule less.hyps [rotated])
    moreover from this z(1) have "occ w' t"
      using occ_append [of w' z "''mdp.'' @ w"] by simp
    ultimately show ?thesis by simp
  next
    case False
    with t have s: "subst w r t = x # subst w r xs" by (simp add: subst_miss)
    from less.prems s have "hit w' (subst w r t) \<or> occ w' (subst w r xs)" by auto
    then show ?thesis
    proof
      assume "hit w' (subst w r t)"
      with hit_subst_back [OF assms(1,2,3)] False have h: "hit w' t" by blast
      with False have "w' \<noteq> w" by auto
      moreover from h t have "occ w' t" by simp
      ultimately show ?thesis by simp
    next
      assume o: "occ w' (subst w r xs)"
      from t have "length xs < length t" by simp
      from less.hyps [OF this o] t show ?thesis by simp
    qed
  qed
qed

lemma subst_id: "\<not> occ w t \<Longrightarrow> subst w r t = t"
  by (induction t) (simp_all add: subst_miss)

lemma ok_rules_Cons:
  "ok_rules W ((w, ro) # rs) =
     (wordy w \<and> \<not> suffix ''mdp'' w \<and> w \<in> W
      \<and> (case ro of None \<Rightarrow> True | Some r \<Rightarrow> wordy r \<and> \<not> suffix ''mdp'' r \<and> r \<notin> W)
      \<and> ok_rules W rs)"
  by (simp add: ok_rules_def)

lemma table_ok: "ok_rules (set (map fst COMMON_CORRECTIONS)) COMMON_CORRECTIONS"
  by code_simp

lemma fst_correct_one:
  "wordy w \<Longrightarrow> fst (correct_one (w, Some r) (t, cs)) = subst w r t"
  using re_sub_correction [of w r t] by (simp add: re_search_correction subst_id)

lemma keep_clean:
  assumes "wordy w'" "w' \<in> W"
  shows "ok_rules W rs \<Longrightarrow> \<not> occ w' t \<Longrightarrow> \<not> occ w' (fst (fold correct_one rs (t, cs)))"
proof (induction rs arbitrary: t cs)
  case Nil
  then show ?case by simp
next
  case (Cons rule rs)
  obtain w ro where rule: "rule = (w, ro)" by (cases rule)
  from Cons.prems(1) rule have ok: "ok_rules W rs" and w: "wordy w"
    by (simp_all add: ok_rules_Cons)
  show ?case
  proof (cases ro)
    case None
    with rule Cons.IH [OF ok Cons.prems(2)] show ?thesis by simp
  next
    case (Some r)
    with Cons.prems(1) rule have r: "wordy r" "\<not> suffix ''mdp'' r" "r \<notin> W"
      by (simp_all add: ok_rules_Cons)
    with assms(2) have "w' \<noteq> r" by auto
    from occ_subst_back [OF w r(1) assms(1) this r(2)] Cons.prems(2)
    have clean: "\<not> occ w' (subst w r t)" by blast
    obtain cs' where step: "correct_one (w, Some r) (t, cs) = (subst w r t, cs')"
      using fst_correct_one [OF w, of r t cs] by (cases "correct_one (w, Some r) (t, cs)") auto
    with rule Some Cons.IH [OF ok clean, of cs'] show ?thesis by simp
  qed
qed

lemma clean_after:
  "ok_rules W rs \<Longrightarrow> (w, Some r) \<in> set rs \<Longrightarrow> \<not> occ w (fst (fold correct_one rs (t, cs)))"
proof (induction rs arbitrary: t cs)
  case Nil
  then show ?case by simp
next
  case (Cons rule rs)
  obtain w0 ro where rule: "rule = (w0, ro)" by (cases rule)
  from Cons.prems(1) rule have ok: "ok_rules W rs" and w0: "wordy w0" "w0 \<in> W"
    by (simp_all add: ok_rules_Cons)
  show ?case
  proof (cases "(w, Some r) \<in> set rs")
    case True
    obtain t' cs' where "correct_one rule (t, cs) = (t', cs')"
      by (cases "correct_one rule (t, cs)")
    with Cons.IH [OF ok True, of t' cs'] show ?thesis by simp
  next
    case False
    with Cons.prems(2) rule have eq: "w0 = w" "ro = Some r" by auto
    with Cons.prems(1) rule have r: "wordy r" "\<not> suffix ''mdp'' r" "r \<notin> W"
      by (simp_all add: ok_rules_Cons)
    with w0 eq have "w \<noteq> r" by auto
    from occ_subst_back [OF _ r(1) _ this r(2), of w t] w0 eq
    have clean: "\<not> occ w (subst w r t)" by blast
    obtain cs' where step: "correct_one (w, Some r) (t, cs) = (subst w r t, cs')"
      using fst_correct_one [of w r t cs] w0 eq
      by (cases "correct_one (w, Some r) (t, cs)") auto
    from keep_clean [OF _ _ ok clean, of cs'] w0 eq step rule show ?thesis by simp
  qed
qed

lemma fold_noop:
  "ok_rules W rs \<Longrightarrow> (\<And>w r. (w, Some r) \<in> set rs \<Longrightarrow> \<not> occ w t)
     \<Longrightarrow> fold correct_one rs (t, cs) = (t, cs)"
proof (induction rs)
  case Nil
  then show ?case by simp
next
  case (Cons rule rs)
  obtain w ro where rule: "rule = (w, ro)" by (cases rule)
  from Cons.prems(1) rule have ok: "ok_rules W rs" and w: "wordy w"
    by (simp_all add: ok_rules_Cons)
  have "correct_one rule (t, cs) = (t, cs)"
  proof (cases ro)
    case None
    with rule show ?thesis by simp
  next
    case (Some r)
    with rule Cons.prems(2) [of w r] have "\<not> occ w t" by simp
    with rule Some w show ?thesis by (simp add: re_search_correction)
  qed
  moreover have "fold correct_one rs (t, cs) = (t, cs)"
  proof (rule Cons.IH [OF ok])
    fix w r
    assume "(w, Some r) \<in> set rs"
    then have "(w, Some r) \<in> set (rule # rs)" by simp
    then show "\<not> occ w t" by (rule Cons.prems(2))
  qed
  ultimately show ?case by simp
qed

text \<open>
  C6: the auto-corrector is idempotent. For every text, \<open>auto_correct_code\<close> applied to
  its own output returns that output unchanged, and the second pass reports no
  correction.
\<close>

theorem auto_correct_idempotent:
  "auto_correct_code (fst (auto_correct_code x)) = (fst (auto_correct_code x), [])"
proof -
  let ?t = "fst (fold correct_one COMMON_CORRECTIONS (x, []))"
  have "\<not> occ w ?t" if "(w, Some r) \<in> set COMMON_CORRECTIONS" for w r
    using table_ok that by (rule clean_after)
  with table_ok have "fold correct_one COMMON_CORRECTIONS (?t, []) = (?t, [])"
    by (rule fold_noop)
  then show ?thesis by (simp add: auto_correct_code_def)
qed

theorem auto_correct_idempotent_witness:
  "auto_correct_code ''x = mdp.joint_pos_l2'' =
     (''x = mdp.joint_pos_target_l2'', [''mdp.joint_pos_l2 -> mdp.joint_pos_target_l2''])
   \<and> auto_correct_code ''x = mdp.joint_pos_target_l2'' = (''x = mdp.joint_pos_target_l2'', [])"
proof -
  have e: "auto_correct_code ''x = mdp.joint_pos_l2'' =
     (''x = mdp.joint_pos_target_l2'', [''mdp.joint_pos_l2 -> mdp.joint_pos_target_l2''])"
    by code_simp
  from auto_correct_idempotent [of "''x = mdp.joint_pos_l2''"] e show ?thesis by simp
qed

lemma subst_run:
  assumes "list_all is_word_char N" "\<not> word_after post"
  shows "\<exists>post'. subst w r (N @ post) = N @ post' \<and> \<not> word_after post'"
  using assms(1)
proof (induction N)
  case Nil
  from assms(2) show ?case by simp
next
  case (Cons c N)
  show ?case
  proof (cases "hit w ((c # N) @ post)")
    case True
    with Cons.prems assms(2) have mdp: "c # N = ''mdp''"
      by (intro hit_in_run [of "c # N" post w]) simp_all
    from True obtain z where z: "(c # N) @ post = ''mdp.'' @ w @ z"
      "subst w r ((c # N) @ post) = ''mdp.'' @ r @ subst w r z"
      by (rule subst_hit)
    from z(2) mdp have "subst w r ((c # N) @ post) = (c # N) @ (''.'' @ r @ subst w r z)"
      by simp
    moreover have "\<not> word_after (''.'' @ r @ subst w r z)" by simp
    ultimately show ?thesis by blast
  next
    case False
    then have s: "subst w r ((c # N) @ post) = c # subst w r (N @ post)"
      by (simp add: subst_miss)
    from Cons.prems have "list_all is_word_char N" by simp
    from Cons.IH [OF this] obtain post' where "subst w r (N @ post) = N @ post'"
      "\<not> word_after post'" by blast
    with s show ?thesis by simp
  qed
qed

lemma hit_extend:
  assumes "hit w (a @ ''.'')" "wordy w"
  shows "hit w (a @ ''.'' @ b)"
proof -
  from assms(1) obtain z where z: "a @ ''.'' = ''mdp.'' @ w @ z" "\<not> word_after z"
    by (auto simp: hit_iff)
  have "z \<noteq> []"
  proof
    assume "z = []"
    with z(1) have "last (''mdp.'' @ w) = last (a @ ''.'')" by simp
    with assms(2) have "last w = CHR ''.''" by (simp add: wordy_def)
    moreover from assms(2) have "is_word_char (last w)"
      by (auto simp: wordy_def list_all_iff)
    ultimately show False by simp
  qed
  with z(2) have "\<not> word_after (z @ b)" by (cases z) auto
  moreover from z(1) have "a @ ''.'' @ b = ''mdp.'' @ w @ (z @ b)"
    by (metis append.assoc)
  ultimately show ?thesis unfolding hit_iff by blast
qed

lemma hit_prefix_split:
  assumes h: "hit w (pre @ ''mdp.'' @ N @ post)" and "pre \<noteq> []" and "wordy w"
    and "\<not> suffix ''mdp'' w" and "list_all is_word_char N" and "\<not> word_after post"
  shows "\<exists>u. pre = ''mdp.'' @ w @ u \<and> u \<noteq> [] \<and> \<not> word_after u"
proof -
  from h obtain z where z: "pre @ (''mdp.'' @ N @ post) = (''mdp.'' @ w) @ z" "\<not> word_after z"
    by (auto simp: hit_iff)
  from z(1) obtain u where
    "(pre = (''mdp.'' @ w) @ u \<and> u @ (''mdp.'' @ N @ post) = z)
     \<or> (pre @ u = ''mdp.'' @ w \<and> ''mdp.'' @ N @ post = u @ z)"
    unfolding append_eq_append_conv2 by blast
  then show ?thesis
  proof
    assume a: "pre = (''mdp.'' @ w) @ u \<and> u @ (''mdp.'' @ N @ post) = z"
    with z(2) have "u \<noteq> []" by auto
    moreover from this a z(2) have "\<not> word_after u" by (cases u) auto
    ultimately show ?thesis using a by simp
  next
    assume b: "pre @ u = ''mdp.'' @ w \<and> ''mdp.'' @ N @ post = u @ z"
    have False
    proof (cases "u = []")
      case True
      with b z(2) show False by auto
    next
      case False
      from b False have um: "hd u = CHR ''m''" by (cases u) auto
      from assms(2) obtain x p1 where p: "pre = x # p1" by (cases pre) auto
      with b have e1: "p1 @ u = ''dp.'' @ w" by simp
      have "suffix u w"
      proof (cases p1)
        case Nil
        with e1 um show ?thesis by simp
      next
        case p1: (Cons a p2)
        with e1 have e2: "p2 @ u = ''p.'' @ w" by simp
        show ?thesis
        proof (cases p2)
          case Nil
          with e2 um show ?thesis by simp
        next
          case p2: (Cons b p3)
          with e2 have e3: "p3 @ u = ''.'' @ w" by simp
          show ?thesis
          proof (cases p3)
            case Nil
            with e3 um show ?thesis by simp
          next
            case (Cons c p4)
            with e3 have "w = p4 @ u" by simp
            then show ?thesis by (simp add: suffix_def)
          qed
        qed
      qed
      then obtain v where w: "w = v @ u" by (auto simp: suffix_def)
      with assms(3) have uw: "list_all is_word_char u" by (simp add: wordy_def)
      from b have "u @ z = ''mdp.'' @ N @ post" by simp
      with assms(6) have "hit N (u @ z)" unfolding hit_iff by blast
      with uw z(2) False have "u = ''mdp''" by (intro hit_in_run [of u z N])
      with w assms(4) show False by (simp add: suffix_def)
    qed
    then show ?thesis ..
  qed
qed

lemma subst_alias [simp]: "wordy w \<Longrightarrow> subst w r ''mdp.'' = ''mdp.''"
proof -
  assume "wordy w"
  then have "\<not> hit w ''mdp.''" by (auto simp: hit_iff wordy_def)
  then show ?thesis by (simp add: subst_miss subst_not_m)
qed

text \<open>
  One correction leaves a longer name behind the alias as it is, and treats the text
  before it as it treats that text alone.
\<close>

lemma subst_context:
  assumes "wordy w" "wordy r" "\<not> suffix ''mdp'' w" "list_all is_word_char N"
    "N \<noteq> w" "\<not> word_after post"
  shows "\<exists>pre' post'. subst w r (pre @ ''mdp.'' @ N @ post) = pre' @ ''mdp.'' @ N @ post'
           \<and> subst w r (pre @ ''mdp.'') = pre' @ ''mdp.'' \<and> \<not> word_after post'"
proof (induction "length pre" arbitrary: pre rule: less_induct)
  case less
  show ?case
  proof (cases pre)
    case Nil
    have nohit: "\<not> hit w (''mdp.'' @ N @ post)"
    proof
      assume "hit w (''mdp.'' @ N @ post)"
      then obtain rest where "N @ post = w @ rest" "\<not> word_after rest"
        by (auto simp: hit_iff)
      with assms(1,4,6) have "N = w"
        using word_run_unique [of N w post rest] by (simp add: wordy_def)
      with assms(5) show False by simp
    qed
    from subst_run [OF assms(4,6), of w r] obtain post'
      where p: "subst w r (N @ post) = N @ post'" "\<not> word_after post'" by blast
    from nohit have "subst w r (''mdp.'' @ N @ post) = ''mdp.'' @ subst w r (N @ post)"
      by (simp add: subst_miss subst_not_m)
    with p Nil assms(1) have "subst w r (pre @ ''mdp.'' @ N @ post) = [] @ ''mdp.'' @ N @ post'
        \<and> subst w r (pre @ ''mdp.'') = [] @ ''mdp.'' \<and> \<not> word_after post'"
      by simp
    then show ?thesis by blast
  next
    case (Cons x p1)
    show ?thesis
    proof (cases "hit w (pre @ ''mdp.'' @ N @ post)")
      case True
      from hit_prefix_split [OF True _ assms(1,3,4,6)] Cons
      obtain u where u: "pre = ''mdp.'' @ w @ u" "u \<noteq> []" "\<not> word_after u" by auto
      then have nw1: "\<not> word_after (u @ ''mdp.'' @ N @ post)"
        and nw2: "\<not> word_after (u @ ''mdp.'')"
        by (cases u; simp)+
      from u(1) have "length u < length pre" by simp
      from less [OF this] obtain pre' post' where
        ih: "subst w r (u @ ''mdp.'' @ N @ post) = pre' @ ''mdp.'' @ N @ post'"
        "subst w r (u @ ''mdp.'') = pre' @ ''mdp.''" "\<not> word_after post'" by blast
      have h1: "hit w (''mdp.'' @ w @ (u @ ''mdp.'' @ N @ post))"
        using nw1 unfolding hit_iff by blast
      have h2: "hit w (''mdp.'' @ w @ (u @ ''mdp.''))"
        using nw2 unfolding hit_iff by blast
      from h1 have s1: "subst w r (''mdp.'' @ w @ (u @ ''mdp.'' @ N @ post))
                  = ''mdp.'' @ r @ subst w r (u @ ''mdp.'' @ N @ post)"
        by (simp add: subst.simps(2))
      from h2 have s2: "subst w r (''mdp.'' @ w @ (u @ ''mdp.''))
                  = ''mdp.'' @ r @ subst w r (u @ ''mdp.'')"
        by (simp add: subst.simps(2))
      from s1 s2 ih u(1) have
        "subst w r (pre @ ''mdp.'' @ N @ post) = (''mdp.'' @ r @ pre') @ ''mdp.'' @ N @ post'
         \<and> subst w r (pre @ ''mdp.'') = (''mdp.'' @ r @ pre') @ ''mdp.'' \<and> \<not> word_after post'"
        by simp
      then show ?thesis by blast
    next
      case False
      have nh: "\<not> hit w (pre @ ''mdp.'')"
      proof
        assume "hit w (pre @ ''mdp.'')"
        then have "hit w ((pre @ ''mdp'') @ ''.'')" by simp
        from hit_extend [OF this assms(1), of "N @ post"] False show False by simp
      qed
      from Cons have "length p1 < length pre" by simp
      from less [OF this] obtain pre' post' where
        ih: "subst w r (p1 @ ''mdp.'' @ N @ post) = pre' @ ''mdp.'' @ N @ post'"
        "subst w r (p1 @ ''mdp.'') = pre' @ ''mdp.''" "\<not> word_after post'" by blast
      from False nh Cons ih have
        "subst w r (pre @ ''mdp.'' @ N @ post) = (x # pre') @ ''mdp.'' @ N @ post'
         \<and> subst w r (pre @ ''mdp.'') = (x # pre') @ ''mdp.'' \<and> \<not> word_after post'"
        by (simp add: subst_miss)
      then show ?thesis by blast
    qed
  qed
qed

lemma fold_context:
  assumes "list_all is_word_char N" "N \<notin> W"
  shows "ok_rules W rs \<Longrightarrow> \<not> word_after post \<Longrightarrow>
    \<exists>pre' post'. fst (fold correct_one rs (pre @ ''mdp.'' @ N @ post, cs)) = pre' @ ''mdp.'' @ N @ post'
       \<and> fst (fold correct_one rs (pre @ ''mdp.'', cs0)) = pre' @ ''mdp.'' \<and> \<not> word_after post'"
proof (induction rs arbitrary: pre post cs cs0)
  case Nil
  then show ?case by auto
next
  case (Cons rule rs)
  obtain w ro where rule: "rule = (w, ro)" by (cases rule)
  from Cons.prems(1) rule have ok: "ok_rules W rs" and w: "wordy w" "\<not> suffix ''mdp'' w" "w \<in> W"
    by (simp_all add: ok_rules_Cons)
  show ?case
  proof (cases ro)
    case None
    with rule Cons.IH [OF ok Cons.prems(2), of pre cs cs0] show ?thesis by simp
  next
    case (Some r)
    with Cons.prems(1) rule have r: "wordy r" by (simp add: ok_rules_Cons)
    from w(3) assms(2) have "N \<noteq> w" by auto
    from subst_context [OF w(1) r w(2) assms(1) this Cons.prems(2), of pre]
    obtain pre1 post1 where c:
      "subst w r (pre @ ''mdp.'' @ N @ post) = pre1 @ ''mdp.'' @ N @ post1"
      "subst w r (pre @ ''mdp.'') = pre1 @ ''mdp.''" "\<not> word_after post1" by blast
    obtain cs' where s1: "correct_one (w, Some r) (pre @ ''mdp.'' @ N @ post, cs)
        = (subst w r (pre @ ''mdp.'' @ N @ post), cs')"
      using fst_correct_one [OF w(1), of r "pre @ ''mdp.'' @ N @ post" cs]
      by (cases "correct_one (w, Some r) (pre @ ''mdp.'' @ N @ post, cs)") auto
    obtain cs0' where s2: "correct_one (w, Some r) (pre @ ''mdp.'', cs0)
        = (subst w r (pre @ ''mdp.''), cs0')"
      using fst_correct_one [OF w(1), of r "pre @ ''mdp.''" cs0]
      by (cases "correct_one (w, Some r) (pre @ ''mdp.'', cs0)") auto
    from Cons.IH [OF ok c(3), of pre1 cs' cs0'] c(1,2) s1 s2 rule Some
    show ?thesis by simp
  qed
qed

text \<open>
  C7: word-boundary safety. Take any text in which \<open>mdp.\<close> is followed by a name that
  extends a wrong name of the table by further identifier characters and ends there
  (the text goes on with no word character), the longer name being valid: not itself a
  wrong name of the table. Then the corrected text is what \<open>auto_correct_code\<close> makes of
  the text up to and including that \<open>mdp.\<close>, followed by the same name, which still ends
  there. The occurrence is not altered, whatever is corrected around it.
\<close>

theorem auto_correct_word_boundary:
  assumes "(w, ro) \<in> set COMMON_CORRECTIONS"
    and "ext \<noteq> []" and "list_all is_word_char ext"
    and "w @ ext \<notin> set (map fst COMMON_CORRECTIONS)"
    and "\<not> word_after post"
  shows "\<exists>pre' post'.
           fst (auto_correct_code (pre @ ''mdp.'' @ w @ ext @ post)) = pre' @ ''mdp.'' @ w @ ext @ post'
           \<and> fst (auto_correct_code (pre @ ''mdp.'')) = pre' @ ''mdp.''
           \<and> \<not> word_after post'"
proof -
  from table_ok assms(1) have "wordy w"
    by (auto simp: ok_rules_def list_all_iff)
  with assms(3) have N: "list_all is_word_char (w @ ext)" by (simp add: wordy_def)
  from fold_context [OF N assms(4) table_ok assms(5), of pre "[]" "[]"]
  show ?thesis by (simp add: auto_correct_code_def)
qed

theorem auto_correct_word_boundary_witness:
  "(''track_lin_vel_xy'', Some ''track_lin_vel_xy_exp'') \<in> set COMMON_CORRECTIONS
   \<and> list_all is_word_char ''_exp''
   \<and> ''track_lin_vel_xy'' @ ''_exp'' \<notin> set (map fst COMMON_CORRECTIONS)
   \<and> \<not> word_after '')''
   \<and> auto_correct_code ''f(mdp.track_lin_vel_xy, mdp.track_lin_vel_xy_exp)''
       = (''f(mdp.track_lin_vel_xy_exp, mdp.track_lin_vel_xy_exp)'',
          [''mdp.track_lin_vel_xy -> mdp.track_lin_vel_xy_exp''])
   \<and> (\<exists>pre' post'.
         fst (auto_correct_code (''f(mdp.track_lin_vel_xy, '' @ ''mdp.'' @ ''track_lin_vel_xy'' @ ''_exp'' @ '')''))
           = pre' @ ''mdp.'' @ ''track_lin_vel_xy'' @ ''_exp'' @ post'
         \<and> fst (auto_correct_code (''f(mdp.track_lin_vel_xy, '' @ ''mdp.'')) = pre' @ ''mdp.''
         \<and> \<not> word_after post')"
proof -
  have h1: "(''track_lin_vel_xy'', Some ''track_lin_vel_xy_exp'') \<in> set COMMON_CORRECTIONS"
    by (simp add: COMMON_CORRECTIONS_def)
  have h2: "''_exp'' \<noteq> []" by simp
  have h3: "list_all is_word_char ''_exp''" by (simp add: is_word_char_def)
  have h4: "''track_lin_vel_xy'' @ ''_exp'' \<notin> set (map fst COMMON_CORRECTIONS)"
    by (simp add: COMMON_CORRECTIONS_def)
  have h5: "\<not> word_after '')''" by (simp add: is_word_char_def)
  have e: "auto_correct_code ''f(mdp.track_lin_vel_xy, mdp.track_lin_vel_xy_exp)''
       = (''f(mdp.track_lin_vel_xy_exp, mdp.track_lin_vel_xy_exp)'',
          [''mdp.track_lin_vel_xy -> mdp.track_lin_vel_xy_exp''])"
    by code_simp
  from auto_correct_word_boundary [OF h1 h2 h3 h4 h5, of "''f(mdp.track_lin_vel_xy, ''"]
    h1 h3 h4 h5 e
  show ?thesis by blast
qed

end
